theory Spec2Isabelle
  imports Main "HOL-Library.Word" "HOL-Library.Sublist"
begin

section \<open>Strings of the page script\<close>

text \<open>
  The script \<^verbatim>\<open>static/app.js\<close> works on JavaScript strings: sequences of UTF-16 code
  units. A code unit is a 16-bit word, so that the bullet glyph U+2022 of \<^verbatim>\<open>renderText\<close>
  and the line terminators U+2028 and U+2029 that the regular expression dot excludes
  are ordinary characters of the model. \<open>js\<close> reads an ASCII literal as such a string.
\<close>

type_synonym jschar = "16 word"
type_synonym jsstring = "jschar list"

definition js :: "string \<Rightarrow> jsstring" where
  "js s = map (\<lambda>c. of_nat (of_char c)) s"

definition is_line_terminator :: "jschar \<Rightarrow> bool" where
  "is_line_terminator c = (c = 0x0A \<or> c = 0x0D \<or> c = 0x2028 \<or> c = 0x2029)"

text \<open>
  \<^verbatim>\<open>String.prototype.trim\<close> strips white space and line terminators from both ends:
  TAB, VT, FF, SP, NBSP, the byte order mark, the Unicode space separators, and the
  four line terminators.
\<close>

definition is_white_space :: "jschar \<Rightarrow> bool" where
  "is_white_space c =
     (c = 0x09 \<or> c = 0x0B \<or> c = 0x0C \<or> c = 0x20 \<or> c = 0xA0 \<or> c = 0xFEFF \<or>
      c = 0x1680 \<or> (0x2000 \<le> c \<and> c \<le> 0x200A) \<or> c = 0x202F \<or> c = 0x205F \<or>
      c = 0x3000 \<or> is_line_terminator c)"

definition trim :: "jsstring \<Rightarrow> jsstring" where
  "trim s = rev (dropWhile is_white_space (rev (dropWhile is_white_space s)))"

section \<open>renderText\<close>

text \<open>
  \<^verbatim>\<open>
  function renderText(text){
    let t = (text||'')
      .replace(/\*\*(.+?)\*\*/g,'<strong>$1</strong>')
      .replace(/\*(.+?)\*/g,'<em>$1</em>')
      .replace(/\n\n/g,'</p><p>')
      .replace(/\n-/g,'<br>&bull;');
    return `<p>${t}</p>`;
  }
  \<close>
  (the last replacement text is \<^verbatim>\<open><br>\<close> followed by the bullet U+2022).

  The two emphasis patterns have the shape \<open>d (.+?) d\<close> for a delimiter \<open>d\<close>. The
  matcher of the regular expression, started at a position, reads \<open>d\<close>, then one
  character that is not a line terminator, and then extends the group lazily: it stops
  at the first place where \<open>d\<close> follows, it fails when it meets a line terminator or
  the end of the string first. \<open>lazy_dots d s\<close> is that extension on the rest \<open>s\<close>: the
  characters the group takes, and the text after the closing delimiter.
\<close>

fun lazy_dots :: "jsstring \<Rightarrow> jsstring \<Rightarrow> (jsstring \<times> jsstring) option" where
  "lazy_dots d [] = (if d = [] then Some ([], []) else None)"
| "lazy_dots d (c # cs) =
     (if prefix d (c # cs) then Some ([], drop (length d) (c # cs))
      else if is_line_terminator c then None
      else map_option (\<lambda>(g, r). (c # g, r)) (lazy_dots d cs))"

definition match_emph :: "jsstring \<Rightarrow> jsstring \<Rightarrow> (jsstring \<times> jsstring) option" where
  "match_emph d s =
     (if prefix d s then
        (case drop (length d) s of
           [] \<Rightarrow> None
         | c # cs \<Rightarrow>
             if is_line_terminator c then None
             else map_option (\<lambda>(g, r). (c # g, r)) (lazy_dots d cs))
      else None)"

lemma lazy_dots_length:
  "lazy_dots d s = Some (g, r) \<Longrightarrow> length r \<le> length s"
proof (induction s arbitrary: g)
  case Nil
  then show ?case by (simp split: if_splits)
next
  case (Cons c cs)
  show ?case
  proof (cases "prefix d (c # cs)")
    case True
    with Cons.prems show ?thesis by auto
  next
    case False
    with Cons.prems obtain g' where "lazy_dots d cs = Some (g', r)"
      by (auto split: if_splits)
    from Cons.IH [OF this] show ?thesis by simp
  qed
qed

lemma match_emph_length:
  assumes "match_emph d s = Some (g, r)"
  shows "length r < length s"
proof -
  from assms obtain c cs g' where s: "drop (length d) s = c # cs"
    and l: "lazy_dots d cs = Some (g', r)"
    by (auto simp: match_emph_def split: if_splits list.splits)
  have "length r \<le> length cs" using lazy_dots_length [OF l] .
  also have "length cs < length (drop (length d) s)" by (simp add: s)
  also have "\<dots> \<le> length s" by simp
  finally show ?thesis .
qed

text \<open>
  A global \<^verbatim>\<open>replace\<close> scans from the left. Where the pattern matches, the match is
  replaced (the group between the opening and the closing tag) and the scan goes on
  after the match; where it does not, the character is copied and the scan moves one
  position.
\<close>

function replace_emph :: "jsstring \<Rightarrow> jsstring \<Rightarrow> jsstring \<Rightarrow> jsstring \<Rightarrow> jsstring" where
  "replace_emph d opn cls s =
     (case s of
        [] \<Rightarrow> []
      | c # cs \<Rightarrow>
          (case match_emph d s of
             Some (g, r) \<Rightarrow> opn @ g @ cls @ replace_emph d opn cls r
           | None \<Rightarrow> c # replace_emph d opn cls cs))"
  by pat_completeness auto
termination
  by (relation "measure (\<lambda>(d, opn, cls, s). length s)")
     (auto dest: match_emph_length)

declare replace_emph.simps [simp del]

text \<open>
  The two literal patterns \<^verbatim>\<open>/\n\n/g\<close> and \<^verbatim>\<open>/\n-/g\<close> are two characters long;
  \<open>replace_pair a b r\<close> replaces every occurrence of \<open>a\<close> followed by \<open>b\<close>, from the
  left and without overlap.
\<close>

fun replace_pair :: "jschar \<Rightarrow> jschar \<Rightarrow> jsstring \<Rightarrow> jsstring \<Rightarrow> jsstring" where
  "replace_pair a b r (x # y # zs) =
     (if x = a \<and> y = b then r @ replace_pair a b r zs
      else x # replace_pair a b r (y # zs))"
| "replace_pair a b r xs = xs"

definition replace_bold :: "jsstring \<Rightarrow> jsstring" where
  "replace_bold = replace_emph (js ''**'') (js ''<strong>'') (js ''</strong>'')"

definition replace_italic :: "jsstring \<Rightarrow> jsstring" where
  "replace_italic = replace_emph (js ''*'') (js ''<em>'') (js ''</em>'')"

definition replace_breaks :: "jsstring \<Rightarrow> jsstring" where
  "replace_breaks = replace_pair 0x0A 0x0A (js ''</p><p>'')"

definition replace_bullets :: "jsstring \<Rightarrow> jsstring" where
  "replace_bullets = replace_pair 0x0A 0x2D (js ''<br>'' @ [0x2022])"

text \<open>
  The argument of \<^verbatim>\<open>renderText\<close> is any JavaScript value: the callers pass string
  literals, the trimmed input field, and a field of the parsed response body. Values
  that \<^verbatim>\<open>JSON.parse\<close> can produce, and \<^verbatim>\<open>undefined\<close> for a missing property. A number
  is only ever tested for being zero.
\<close>

datatype jsval =
    JUndefined
  | JNull
  | JBool bool
  | JNum int
  | JStr jsstring
  | JArr "jsval list"
  | JObj "(jsstring \<times> jsval) list"

fun truthy :: "jsval \<Rightarrow> bool" where
  "truthy JUndefined = False"
| "truthy JNull = False"
| "truthy (JBool b) = b"
| "truthy (JNum n) = (n \<noteq> 0)"
| "truthy (JStr s) = (s \<noteq> [])"
| "truthy (JArr xs) = True"
| "truthy (JObj kvs) = True"

datatype error = TypeError | NotFoundError | NetworkError | SyntaxError

definition format_text :: "jsstring \<Rightarrow> jsstring" where
  "format_text t = replace_bullets (replace_breaks (replace_italic (replace_bold t)))"

text \<open>
  \<^verbatim>\<open>(text||'')\<close> is the empty string for a falsy argument. A truthy argument that is
  not a string (a number, \<^verbatim>\<open>true\<close>, an array, an object) has no callable \<^verbatim>\<open>replace\<close>,
  and the call raises a TypeError.
\<close>

fun renderText :: "jsval \<Rightarrow> error + jsstring" where
  "renderText (JStr t) = Inr (js ''<p>'' @ format_text t @ js ''</p>'')"
| "renderText v =
     (if truthy v then Inl TypeError else Inr (js ''<p>'' @ format_text [] @ js ''</p>''))"

section \<open>The page state\<close>

text \<open>
  The children of the chat log \<^verbatim>\<open>#chat\<close> are rows. \<^verbatim>\<open>addMessage\<close> appends a row
  with a class name and a bubble whose markup is the rendered text; such a row is never
  referred to again. \<^verbatim>\<open>showTyping\<close> appends an indicator row and keeps a reference to
  it in \<^verbatim>\<open>typingEl\<close>, so an indicator row carries its identity: the number of
  indicator elements created before it.
\<close>

datatype node = Message jsstring jsstring | Indicator nat

fun indicators :: "node list \<Rightarrow> nat list" where
  "indicators [] = []"
| "indicators (Message c h # ns) = indicators ns"
| "indicators (Indicator i # ns) = i # indicators ns"

text \<open>
  What the script does to the world outside the log: the requests it hands to
  \<^verbatim>\<open>fetch\<close>, the \<^verbatim>\<open>alert\<close> prompts, and the lines of \<^verbatim>\<open>console.error\<close>.
  An \<^verbatim>\<open>async\<close> function that has reached its \<^verbatim>\<open>await\<close> is a continuation
  waiting for the response; \<open>awaiting\<close> lists them in the order of their requests.
\<close>

datatype request = StartSessionRequest jsstring | ChatRequest jsstring jsstring

datatype continuation = AwaitStart | AwaitChat

datatype log_entry = LogPayload jsstring jsval | LogError error

record state =
  currentUser :: jsstring
  typingEl :: "nat option"
  chat :: "node list"
  userInput :: jsstring
  msgInput :: jsstring
  created :: nat
  alerts :: "jsstring list"
  console :: "log_entry list"
  requests :: "request list"
  awaiting :: "continuation list"

text \<open>
  A call either returns the new state, or raises an error in the state it had reached.
\<close>

type_synonym result = "(error \<times> state) + state"

definition andThen :: "result \<Rightarrow> (state \<Rightarrow> result) \<Rightarrow> result" where
  "andThen r f = (case r of Inl e \<Rightarrow> Inl e | Inr s \<Rightarrow> f s)"

definition tryCatch :: "result \<Rightarrow> (error \<Rightarrow> state \<Rightarrow> result) \<Rightarrow> result" where
  "tryCatch r h = (case r of Inl (e, s) \<Rightarrow> h e s | Inr s \<Rightarrow> Inr s)"

definition final :: "result \<Rightarrow> state" where
  "final r = (case r of Inl (e, s) \<Rightarrow> s | Inr s \<Rightarrow> s)"

text \<open>
  \<^verbatim>\<open>
  function addMessage(role, text){
    const row = document.createElement('div');
    row.className = `msg ${role==='user'?'user-msg':'assistant-msg'}`;
    const bubble = document.createElement('div');
    bubble.className = 'bubble';
    bubble.innerHTML = renderText(text);
    row.appendChild(bubble);
    chat.appendChild(row);
    chat.scrollTop = chat.scrollHeight;
  }
  \<close>
  When \<^verbatim>\<open>renderText\<close> raises, the row has not been attached yet. The scroll position
  is not part of the model.
\<close>

definition addMessage :: "jsstring \<Rightarrow> jsval \<Rightarrow> state \<Rightarrow> result" where
  "addMessage role text s =
     (case renderText text of
        Inl e \<Rightarrow> Inl (e, s)
      | Inr html \<Rightarrow>
          Inr (s\<lparr>chat := chat s @
            [Message (js ''msg '' @ (if role = js ''user'' then js ''user-msg''
                                    else js ''assistant-msg'')) html]\<rparr>))"

text \<open>
  \<^verbatim>\<open>
  let typingEl = null;
  function showTyping(){
    if(typingEl) return;
    typingEl = document.createElement('div');
    ...
    chat.appendChild(typingEl);
    chat.scrollTop = chat.scrollHeight;
  }
  \<close>
\<close>

definition showTyping :: "state \<Rightarrow> state" where
  "showTyping s =
     (case typingEl s of
        Some i \<Rightarrow> s
      | None \<Rightarrow>
          s\<lparr>typingEl := Some (created s),
            chat := chat s @ [Indicator (created s)],
            created := Suc (created s)\<rparr>)"

text \<open>
  \<^verbatim>\<open>chat.removeChild(n)\<close> raises a NotFoundError when \<open>n\<close> is not a child of the log.
  \<^verbatim>\<open>
  function hideTyping(){
    if(!typingEl) return;
    // Only remove if it is still attached to chat
    if(typingEl.parentNode === chat){
      chat.removeChild(typingEl);
    }
    typingEl = null;
  }
  \<close>
  An indicator element is only ever attached to the log, so its parent is the log
  exactly when it is among the log's children.
\<close>

definition removeChild :: "node \<Rightarrow> state \<Rightarrow> result" where
  "removeChild n s =
     (if n \<in> set (chat s) then Inr (s\<lparr>chat := remove1 n (chat s)\<rparr>)
      else Inl (NotFoundError, s))"

definition hideTyping :: "state \<Rightarrow> result" where
  "hideTyping s =
     (case typingEl s of
        None \<Rightarrow> Inr s
      | Some i \<Rightarrow>
          andThen
            (if Indicator i \<in> set (chat s) then removeChild (Indicator i) s else Inr s)
            (\<lambda>s1. Inr (s1\<lparr>typingEl := None\<rparr>)))"

section \<open>Responses\<close>

text \<open>
  What the two \<^verbatim>\<open>await\<close>s of a call can bring: \<^verbatim>\<open>fetch\<close> rejects (no response);
  or a response arrives with its \<^verbatim>\<open>ok\<close> flag and \<^verbatim>\<open>res.json()\<close> rejects because the
  body is not JSON; or the body parses to a value. Between the two \<^verbatim>\<open>await\<close>s the
  script neither reads nor writes its state, so the model resumes a call once, with
  the outcome of both.
\<close>

datatype response = Rejected | NotJson bool | Body bool jsval

text \<open>
  \<^verbatim>\<open>data.message\<close> and \<^verbatim>\<open>data.response\<close>: an own property of a parsed object;
  \<^verbatim>\<open>undefined\<close> on an object without it, and on an array, a string, a number or a
  boolean (none of them has a property of these two names). \<open>JObj\<close> lists the
  properties of the parsed object, each name once. The script reads the property only
  behind \<^verbatim>\<open>data &&\<close>, so never on \<^verbatim>\<open>null\<close>.
\<close>

fun property :: "jsval \<Rightarrow> jsstring \<Rightarrow> jsval" where
  "property (JObj kvs) k = (case map_of kvs k of Some v \<Rightarrow> v | None \<Rightarrow> JUndefined)"
| "property v k = JUndefined"

definition dispatch :: "request \<Rightarrow> continuation \<Rightarrow> state \<Rightarrow> state" where
  "dispatch req k s = s\<lparr>requests := requests s @ [req], awaiting := awaiting s @ [k]\<rparr>"

section \<open>startSession\<close>

text \<open>
  \<^verbatim>\<open>
  async function startSession(){
    const userId = userInput.value.trim();
    if(!userId){
      alert('Enter your name');
      return;
    }
    currentUser = userId;
    showTyping();
    try{
      const res = await fetch(`${window.API_BASE}/api/start_session`,{
        method:'POST',headers:{'Content-Type':'application/json'},
        body: JSON.stringify({user_id:userId})
      });
      const data = await res.json();
      hideTyping();
      chat.innerHTML = '';
      if(res.ok && data && data.message){
        addMessage('assistant', data.message);
      }else{
        addMessage('assistant', 'Welcome back! You can start chatting.');
        console.error('Unexpected start_session payload:', data);
      }
    }catch(err){
      hideTyping();
      addMessage('assistant', 'Failed to start session. Please try again.');
      console.error(err);
    }
  }
  \<close>
  \<open>startSession_enter\<close> is lines 61 and 62, between the validation and the request.
  \<open>startSession_begin\<close> is the call up to the \<^verbatim>\<open>await\<close>; \<open>startSession_resume\<close> is
  the rest, run when the response is there.
\<close>

definition startSession_enter :: "jsstring \<Rightarrow> state \<Rightarrow> state" where
  "startSession_enter userId s = showTyping (s\<lparr>currentUser := userId\<rparr>)"

definition startSession_begin :: "state \<Rightarrow> result" where
  "startSession_begin s =
     (let userId = trim (userInput s) in
      if userId = [] then Inr (s\<lparr>alerts := alerts s @ [js ''Enter your name'']\<rparr>)
      else Inr (dispatch (StartSessionRequest userId) AwaitStart
                  (startSession_enter userId s)))"

definition startSession_try :: "response \<Rightarrow> state \<Rightarrow> result" where
  "startSession_try resp s =
     (case resp of
        Rejected \<Rightarrow> Inl (NetworkError, s)
      | NotJson ok \<Rightarrow> Inl (SyntaxError, s)
      | Body ok data \<Rightarrow>
          andThen (hideTyping s) (\<lambda>s1.
            let s2 = s1\<lparr>chat := []\<rparr> in
            if ok \<and> truthy data \<and> truthy (property data (js ''message''))
            then addMessage (js ''assistant'') (property data (js ''message'')) s2
            else andThen
              (addMessage (js ''assistant'')
                 (JStr (js ''Welcome back! You can start chatting.'')) s2)
              (\<lambda>s3. Inr (s3\<lparr>console := console s3 @
                 [LogPayload (js ''Unexpected start_session payload:'') data]\<rparr>))))"

definition startSession_catch :: "error \<Rightarrow> state \<Rightarrow> result" where
  "startSession_catch err s =
     andThen (hideTyping s) (\<lambda>s1.
       andThen
         (addMessage (js ''assistant'')
            (JStr (js ''Failed to start session. Please try again.'')) s1)
         (\<lambda>s2. Inr (s2\<lparr>console := console s2 @ [LogError err]\<rparr>)))"

definition startSession_resume :: "response \<Rightarrow> state \<Rightarrow> result" where
  "startSession_resume resp s = tryCatch (startSession_try resp s) startSession_catch"

section \<open>send\<close>

text \<open>
  \<^verbatim>\<open>
  async function send(){
    const text = msgInput.value.trim();
    if(!text || !currentUser) return;
    addMessage('user', text);
    msgInput.value = '';
    showTyping();
    try{
      const res = await fetch(`${window.API_BASE}/api/chat`,{
        method:'POST',headers:{'Content-Type':'application/json'},
        body: JSON.stringify({user_id: currentUser, message: text})
      });
      const data = await res.json();
      hideTyping();
      if(res.ok && data && data.response){
        addMessage('assistant', data.response);
      }else{
        addMessage('assistant', 'Hmm, I didn't get a response. Please try again.');
        console.error('Unexpected chat payload:', data);
      }
    }catch(err){
      hideTyping();
      addMessage('assistant', 'Network error. Please try again.');
      console.error(err);
    }
  }
  \<close>
  (the apostrophe of the fallback text is U+2019 in the source).
\<close>

definition send_begin :: "state \<Rightarrow> result" where
  "send_begin s =
     (let text = trim (msgInput s) in
      if text = [] \<or> currentUser s = [] then Inr s
      else andThen (addMessage (js ''user'') (JStr text) s) (\<lambda>s1.
        let s2 = showTyping (s1\<lparr>msgInput := []\<rparr>) in
        Inr (dispatch (ChatRequest (currentUser s2) text) AwaitChat s2)))"

definition send_try :: "response \<Rightarrow> state \<Rightarrow> result" where
  "send_try resp s =
     (case resp of
        Rejected \<Rightarrow> Inl (NetworkError, s)
      | NotJson ok \<Rightarrow> Inl (SyntaxError, s)
      | Body ok data \<Rightarrow>
          andThen (hideTyping s) (\<lambda>s1.
            if ok \<and> truthy data \<and> truthy (property data (js ''response''))
            then addMessage (js ''assistant'') (property data (js ''response'')) s1
            else andThen
              (addMessage (js ''assistant'')
                 (JStr (js ''Hmm, I didn'' @ [0x2019] @
                        js ''t get a response. Please try again.'')) s1)
              (\<lambda>s2. Inr (s2\<lparr>console := console s2 @
                 [LogPayload (js ''Unexpected chat payload:'') data]\<rparr>))))"

definition send_catch :: "error \<Rightarrow> state \<Rightarrow> result" where
  "send_catch err s =
     andThen (hideTyping s) (\<lambda>s1.
       andThen
         (addMessage (js ''assistant'') (JStr (js ''Network error. Please try again.'')) s1)
         (\<lambda>s2. Inr (s2\<lparr>console := console s2 @ [LogError err]\<rparr>)))"

definition send_resume :: "response \<Rightarrow> state \<Rightarrow> result" where
  "send_resume resp s = tryCatch (send_try resp s) send_catch"

section \<open>Events\<close>

text \<open>
  \<^verbatim>\<open>
  startBtn.addEventListener('click', startSession);
  sendBtn.addEventListener('click', send);
  msgInput.addEventListener('keydown', (e)=>{
    if(e.key==='Enter') send();
  });
  \<close>
  The page runs one handler at a time. Between two handlers the user may edit either
  input field, and any of the outstanding requests may complete: \<open>Settle i resp\<close>
  resumes the \<open>i\<close>-th waiting call with its response.
\<close>

datatype event =
    EditUser jsstring
  | EditMessage jsstring
  | ClickStart
  | ClickSend
  | KeyDown jsstring
  | Settle nat response

definition settle :: "nat \<Rightarrow> response \<Rightarrow> state \<Rightarrow> result" where
  "settle i resp s =
     (if i < length (awaiting s) then
        (let s1 = s\<lparr>awaiting := take i (awaiting s) @ drop (Suc i) (awaiting s)\<rparr> in
         case awaiting s ! i of
           AwaitStart \<Rightarrow> startSession_resume resp s1
         | AwaitChat \<Rightarrow> send_resume resp s1)
      else Inr s)"

fun step :: "event \<Rightarrow> state \<Rightarrow> result" where
  "step (EditUser v) s = Inr (s\<lparr>userInput := v\<rparr>)"
| "step (EditMessage v) s = Inr (s\<lparr>msgInput := v\<rparr>)"
| "step ClickStart s = startSession_begin s"
| "step ClickSend s = send_begin s"
| "step (KeyDown k) s = (if k = js ''Enter'' then send_begin s else Inr s)"
| "step (Settle i resp) s = settle i resp s"

fun run :: "event list \<Rightarrow> state \<Rightarrow> state" where
  "run [] s = s"
| "run (e # es) s = run es (final (step e s))"

text \<open>
  A call with nothing in between: the handler runs to its \<^verbatim>\<open>await\<close>, the response
  arrives, the handler runs to its end.
\<close>

definition startSession :: "response \<Rightarrow> state \<Rightarrow> result" where
  "startSession resp s =
     andThen (startSession_begin s) (\<lambda>s1.
       if trim (userInput s) = [] then Inr s1
       else settle (length (awaiting s)) resp s1)"

definition send :: "response \<Rightarrow> state \<Rightarrow> result" where
  "send resp s =
     andThen (send_begin s) (\<lambda>s1.
       if trim (msgInput s) = [] \<or> currentUser s = [] then Inr s1
       else settle (length (awaiting s)) resp s1)"


definition page :: "node list \<Rightarrow> state" where
  "page rows =
     \<lparr>currentUser = [], typingEl = None, chat = rows, userInput = [], msgInput = [],
      created = 0, alerts = [], console = [], requests = [], awaiting = []\<rparr>"

text \<open>
  The slot and the log agree: the indicators attached to the log are the one the slot
  refers to, or none when the slot is empty.
\<close>

definition slot_owns :: "state \<Rightarrow> bool" where
  "slot_owns s = (indicators (chat s) = (case typingEl s of None \<Rightarrow> [] | Some i \<Rightarrow> [i]))"

text \<open>
  The log without the indicator the slot refers to: what \<^verbatim>\<open>hideTyping\<close> leaves of it.
\<close>

definition hidden :: "state \<Rightarrow> node list" where
  "hidden s = (case typingEl s of None \<Rightarrow> chat s | Some i \<Rightarrow> remove1 (Indicator i) (chat s))"

section \<open>Occurrences of a pattern\<close>

text \<open>
  \<open>count_sub p s\<close> counts the positions of \<open>s\<close> at which \<open>p\<close> begins.
\<close>

fun count_sub :: "jsstring \<Rightarrow> jsstring \<Rightarrow> nat" where
  "count_sub p [] = 0"
| "count_sub p (c # cs) = (if prefix p (c # cs) then 1 else 0) + count_sub p cs"

text \<open>
  To follow a pattern through the substitutions, a scanner reads a string from the
  left and keeps the number of characters of \<open>p\<close> it has just seen; once it has seen
  all of \<open>p\<close> it stays there. It is exact for a pattern whose first character does not
  come back before its last position (\<open>plain\<close>), which the three patterns of interest
  are: the double newline, \<^verbatim>\<open><p>\<close> and \<^verbatim>\<open></p>\<close>.
\<close>

definition advance :: "jsstring \<Rightarrow> nat \<Rightarrow> jschar \<Rightarrow> nat" where
  "advance p q c =
     (if length p \<le> q then q
      else if p ! q = c then Suc q
      else if p ! 0 = c then 1
      else 0)"

definition scan :: "jsstring \<Rightarrow> nat \<Rightarrow> jsstring \<Rightarrow> nat" where
  "scan p q s = foldl (advance p) q s"

definition plain :: "jsstring \<Rightarrow> bool" where
  "plain p = (p \<noteq> [] \<and> (\<forall>i. 0 < i \<and> Suc i < length p \<longrightarrow> p ! i \<noteq> p ! 0))"

section \<open>Basic facts\<close>

lemma andThen_Inr [simp]: "andThen (Inr s) f = f s"
  by (simp add: andThen_def)

lemma andThen_Inl [simp]: "andThen (Inl e) f = Inl e"
  by (simp add: andThen_def)

lemma tryCatch_Inr [simp]: "tryCatch (Inr s) h = Inr s"
  by (simp add: tryCatch_def)

lemma tryCatch_Inl [simp]: "tryCatch (Inl (e, s)) h = h e s"
  by (simp add: tryCatch_def)

lemma final_Inr [simp]: "final (Inr s) = s"
  by (simp add: final_def)

lemma final_Inl [simp]: "final (Inl (e, s)) = s"
  by (simp add: final_def)

lemma indicators_append [simp]: "indicators (xs @ ys) = indicators xs @ indicators ys"
  by (induction xs rule: indicators.induct) simp_all

lemma indicators_remove1:
  "indicators (remove1 (Indicator i) xs) = remove1 i (indicators xs)"
  by (induction xs rule: indicators.induct) simp_all

lemma Indicator_in_set: "Indicator i \<in> set xs \<longleftrightarrow> i \<in> set (indicators xs)"
  by (induction xs rule: indicators.induct) auto

lemma hideTyping_returns:
  "hideTyping s =
     Inr (s\<lparr>chat := (case typingEl s of None \<Rightarrow> chat s
                      | Some i \<Rightarrow> remove1 (Indicator i) (chat s)),
           typingEl := None\<rparr>)"
  by (cases "typingEl s") (auto simp: hideTyping_def removeChild_def remove1_idem)

lemma addMessage_assistant:
  "addMessage (js ''assistant'') (JStr t) s =
     Inr (s\<lparr>chat := chat s @
       [Message (js ''msg assistant-msg'') (js ''<p>'' @ format_text t @ js ''</p>'')]\<rparr>)"
  by (simp add: addMessage_def js_def)

lemma addMessage_user:
  "addMessage (js ''user'') (JStr t) s =
     Inr (s\<lparr>chat := chat s @
       [Message (js ''msg user-msg'') (js ''<p>'' @ format_text t @ js ''</p>'')]\<rparr>)"
  by (simp add: addMessage_def js_def)

lemma addMessage_cases:
  "addMessage r t s = Inl (TypeError, s) \<or>
   (\<exists>c h. addMessage r t s = Inr (s\<lparr>chat := chat s @ [Message c h]\<rparr>))"
  by (cases "renderText t"; cases t) (auto simp: addMessage_def split: if_splits)

text \<open>
  Both continuations return in every case: whatever the \<^verbatim>\<open>try\<close> block raises, the
  \<^verbatim>\<open>catch\<close> block handles it and raises nothing itself. The slot is empty afterwards
  and the log ends with the message the call rendered.
\<close>

lemma hideTyping_hidden: "hideTyping s = Inr (s\<lparr>typingEl := None, chat := hidden s\<rparr>)"
  by (simp add: hideTyping_returns hidden_def)

lemma hidden_simps [simp]:
  "typingEl s = None \<Longrightarrow> hidden s = chat s"
  by (simp_all add: hidden_def)

lemma startSession_catch_returns:
  "startSession_catch e s =
     Inr (s\<lparr>typingEl := None,
           chat := hidden s @ [Message (js ''msg assistant-msg'')
             (js ''<p>'' @ format_text (js ''Failed to start session. Please try again.'') @ js ''</p>'')],
           console := console s @ [LogError e]\<rparr>)"
  by (simp add: startSession_catch_def hideTyping_hidden addMessage_assistant)

lemma send_catch_returns:
  "send_catch e s =
     Inr (s\<lparr>typingEl := None,
           chat := hidden s @ [Message (js ''msg assistant-msg'')
             (js ''<p>'' @ format_text (js ''Network error. Please try again.'') @ js ''</p>'')],
           console := console s @ [LogError e]\<rparr>)"
  by (simp add: send_catch_def hideTyping_hidden addMessage_assistant)

lemma startSession_resume_shape:
  "\<exists>base c h logs.
     startSession_resume resp s =
       Inr (s\<lparr>typingEl := None, chat := base @ [Message c h], console := console s @ logs\<rparr>) \<and>
     (base = [] \<or> base = hidden s)"
proof (cases resp)
  case Rejected
  then show ?thesis
    by (simp add: startSession_resume_def startSession_try_def startSession_catch_returns) blast
next
  case (NotJson ok)
  then show ?thesis
    by (simp add: startSession_resume_def startSession_try_def startSession_catch_returns) blast
next
  case (Body ok data)
  let ?s2 = "s\<lparr>typingEl := None, chat := []\<rparr>"
  let ?v = "property data (js ''message'')"
  show ?thesis
  proof (cases "ok \<and> truthy data \<and> truthy ?v")
    case True
    with Body have r: "startSession_resume resp s =
        tryCatch (addMessage (js ''assistant'') ?v ?s2) startSession_catch"
      by (simp add: startSession_resume_def startSession_try_def hideTyping_hidden)
    from addMessage_cases [of "js ''assistant''" ?v ?s2] show ?thesis
    proof
      assume "addMessage (js ''assistant'') ?v ?s2 = Inl (TypeError, ?s2)"
      then have "startSession_resume resp s = Inr (s\<lparr>typingEl := None,
           chat := [] @ [Message (js ''msg assistant-msg'')
             (js ''<p>'' @ format_text (js ''Failed to start session. Please try again.'') @ js ''</p>'')],
           console := console s @ [LogError TypeError]\<rparr>)"
        by (simp add: r startSession_catch_returns)
      then show ?thesis by blast
    next
      assume "\<exists>c h. addMessage (js ''assistant'') ?v ?s2 = Inr (?s2\<lparr>chat := chat ?s2 @ [Message c h]\<rparr>)"
      then obtain c h where "addMessage (js ''assistant'') ?v ?s2 = Inr (?s2\<lparr>chat := chat ?s2 @ [Message c h]\<rparr>)"
        by blast
      then have "startSession_resume resp s = Inr (s\<lparr>typingEl := None,
           chat := [] @ [Message c h], console := console s @ []\<rparr>)"
        by (simp add: r)
      then show ?thesis by blast
    qed
  next
    case False
    with Body have "startSession_resume resp s = Inr (s\<lparr>typingEl := None,
           chat := [] @ [Message (js ''msg assistant-msg'')
             (js ''<p>'' @ format_text (js ''Welcome back! You can start chatting.'') @ js ''</p>'')],
           console := console s @ [LogPayload (js ''Unexpected start_session payload:'') data]\<rparr>)"
      by (auto simp: startSession_resume_def startSession_try_def hideTyping_hidden addMessage_assistant)
    then show ?thesis by blast
  qed
qed

lemma send_resume_shape:
  "\<exists>c h logs.
     send_resume resp s =
       Inr (s\<lparr>typingEl := None, chat := hidden s @ [Message c h], console := console s @ logs\<rparr>)"
proof (cases resp)
  case Rejected
  then show ?thesis
    by (simp add: send_resume_def send_try_def send_catch_returns) blast
next
  case (NotJson ok)
  then show ?thesis
    by (simp add: send_resume_def send_try_def send_catch_returns) blast
next
  case (Body ok data)
  let ?s1 = "s\<lparr>typingEl := None, chat := hidden s\<rparr>"
  let ?v = "property data (js ''response'')"
  show ?thesis
  proof (cases "ok \<and> truthy data \<and> truthy ?v")
    case True
    with Body have r: "send_resume resp s =
        tryCatch (addMessage (js ''assistant'') ?v ?s1) send_catch"
      by (simp add: send_resume_def send_try_def hideTyping_hidden)
    from addMessage_cases [of "js ''assistant''" ?v ?s1] show ?thesis
    proof
      assume "addMessage (js ''assistant'') ?v ?s1 = Inl (TypeError, ?s1)"
      then have "send_resume resp s = Inr (s\<lparr>typingEl := None,
           chat := hidden s @ [Message (js ''msg assistant-msg'')
             (js ''<p>'' @ format_text (js ''Network error. Please try again.'') @ js ''</p>'')],
           console := console s @ [LogError TypeError]\<rparr>)"
        by (simp add: r send_catch_returns)
      then show ?thesis by blast
    next
      assume "\<exists>c h. addMessage (js ''assistant'') ?v ?s1 = Inr (?s1\<lparr>chat := chat ?s1 @ [Message c h]\<rparr>)"
      then obtain c h where "addMessage (js ''assistant'') ?v ?s1 = Inr (?s1\<lparr>chat := chat ?s1 @ [Message c h]\<rparr>)"
        by blast
      then have "send_resume resp s = Inr (s\<lparr>typingEl := None,
           chat := hidden s @ [Message c h], console := console s @ []\<rparr>)"
        by (simp add: r)
      then show ?thesis by blast
    qed
  next
    case False
    with Body have "send_resume resp s = Inr (s\<lparr>typingEl := None,
           chat := hidden s @ [Message (js ''msg assistant-msg'')
             (js ''<p>'' @ format_text (js ''Hmm, I didn'' @ [0x2019] @
                        js ''t get a response. Please try again.'') @ js ''</p>'')],
           console := console s @ [LogPayload (js ''Unexpected chat payload:'') data]\<rparr>)"
      by (auto simp: send_resume_def send_try_def hideTyping_hidden addMessage_assistant)
    then show ?thesis by blast
  qed
qed

lemma js_Nil_iff [simp]: "js s = [] \<longleftrightarrow> s = []"
  by (simp add: js_def)

lemma failed_markup:
  "js ''<p>'' @ format_text (js ''Failed to start session. Please try again.'') @ js ''</p>'' =
   js ''<p>Failed to start session. Please try again.</p>''"
  by code_simp

lemma network_markup:
  "js ''<p>'' @ format_text (js ''Network error. Please try again.'') @ js ''</p>'' =
   js ''<p>Network error. Please try again.</p>''"
  by code_simp

lemma hi_markup: "js ''<p>'' @ format_text (js ''Hi'') @ js ''</p>'' = js ''<p>Hi</p>''"
  by code_simp

lemma settle_last_start:
  "settle (length (awaiting s)) resp (dispatch req AwaitStart s) =
     startSession_resume resp (s\<lparr>requests := requests s @ [req]\<rparr>)"
  by (simp add: settle_def dispatch_def)

lemma settle_last_chat:
  "settle (length (awaiting s)) resp (dispatch req AwaitChat s) =
     send_resume resp (s\<lparr>requests := requests s @ [req]\<rparr>)"
  by (simp add: settle_def dispatch_def)

lemma awaiting_showTyping [simp]: "awaiting (showTyping s) = awaiting s"
  by (simp add: showTyping_def split: option.splits)

lemma requests_showTyping [simp]: "requests (showTyping s) = requests s"
  by (simp add: showTyping_def split: option.splits)

lemma currentUser_showTyping [simp]: "currentUser (showTyping s) = currentUser s"
  by (simp add: showTyping_def split: option.splits)

lemma startSession_unfold:
  assumes "trim (userInput s) \<noteq> []"
  shows "startSession resp s =
     startSession_resume resp
       ((startSession_enter (trim (userInput s)) s)
          \<lparr>requests := requests s @ [StartSessionRequest (trim (userInput s))]\<rparr>)"
proof -
  let ?u = "trim (userInput s)"
  let ?s1 = "startSession_enter ?u s"
  have a: "awaiting ?s1 = awaiting s" and r: "requests ?s1 = requests s"
    by (simp_all add: startSession_enter_def)
  from assms have "startSession resp s =
      settle (length (awaiting ?s1)) resp (dispatch (StartSessionRequest ?u) AwaitStart ?s1)"
    by (simp add: startSession_def startSession_begin_def a Let_def)
  also have "\<dots> = startSession_resume resp (?s1\<lparr>requests := requests ?s1 @ [StartSessionRequest ?u]\<rparr>)"
    by (rule settle_last_start)
  finally show ?thesis by (simp only: r)
qed

lemma trim_alice: "trim (js '' alice '') = js ''alice''"
  by (simp add: trim_def js_def is_white_space_def is_line_terminator_def)

section \<open>A start that fails\<close>

text \<open>
  Claim C1 says that after a start whose request or whose JSON parse fails the session
  state is still unset. The script assigns \<^verbatim>\<open>currentUser\<close> on line 61, before the
  request goes out, and no line takes the assignment back: on the page as loaded, with
  \<open>alice\<close> typed in, a rejected request (and a body that is not JSON) leaves
  \<^verbatim>\<open>currentUser\<close> equal to \<open>alice\<close>.
\<close>

theorem startSession_failure_counterexample:
  "currentUser ((page [])\<lparr>userInput := js '' alice ''\<rparr>) = [] \<and>
   trim (userInput ((page [])\<lparr>userInput := js '' alice ''\<rparr>)) = js ''alice'' \<and>
   currentUser (final (startSession Rejected ((page [])\<lparr>userInput := js '' alice ''\<rparr>))) =
     js ''alice'' \<and>
   currentUser (final (startSession (NotJson True) ((page [])\<lparr>userInput := js '' alice ''\<rparr>))) =
     js ''alice'' \<and>
   js ''alice'' \<noteq> []"
  by code_simp

text \<open>
  Claim C1, amended: for every call of \<^verbatim>\<open>startSession\<close> from the idle state (no user,
  no indicator in the slot or in the log) with a user id that is not empty after
  trimming, in which the request is rejected or the body is not JSON, the call returns;
  the indicator it showed is hidden again, the log gains the generic failure message,
  the error is printed to the console, and \<^verbatim>\<open>currentUser\<close> is the trimmed user id (it
  was assigned before the request). Nothing else changes, so the start button works
  as before. The second part is the completion by itself, from any state, for a
  request during which other handlers have run.
\<close>

theorem startSession_failure_keeps_user:
  assumes "resp = Rejected \<or> resp = NotJson ok"
  shows "(currentUser s = [] \<and> typingEl s = None \<and> indicators (chat s) = [] \<and>
          trim (userInput s) \<noteq> [] \<longrightarrow>
          startSession resp s =
            Inr (s\<lparr>currentUser := trim (userInput s), typingEl := None,
                  chat := chat s @ [Message (js ''msg assistant-msg'')
                    (js ''<p>Failed to start session. Please try again.</p>'')],
                  created := Suc (created s),
                  console := console s @
                    [LogError (if resp = Rejected then NetworkError else SyntaxError)],
                  requests := requests s @ [StartSessionRequest (trim (userInput s))]\<rparr>)) \<and>
         startSession_resume resp s =
           Inr (s\<lparr>typingEl := None,
                 chat := hidden s @ [Message (js ''msg assistant-msg'')
                   (js ''<p>Failed to start session. Please try again.</p>'')],
                 console := console s @
                   [LogError (if resp = Rejected then NetworkError else SyntaxError)]\<rparr>)"
proof -
  have resume: "startSession_resume resp s' =
           Inr (s'\<lparr>typingEl := None,
                 chat := hidden s' @ [Message (js ''msg assistant-msg'')
                   (js ''<p>Failed to start session. Please try again.</p>'')],
                 console := console s' @
                   [LogError (if resp = Rejected then NetworkError else SyntaxError)]\<rparr>)" for s'
    using assms
    by (auto simp: startSession_resume_def startSession_try_def startSession_catch_returns
        failed_markup)
  have "startSession resp s =
            Inr (s\<lparr>currentUser := trim (userInput s), typingEl := None,
                  chat := chat s @ [Message (js ''msg assistant-msg'')
                    (js ''<p>Failed to start session. Please try again.</p>'')],
                  created := Suc (created s),
                  console := console s @
                    [LogError (if resp = Rejected then NetworkError else SyntaxError)],
                  requests := requests s @ [StartSessionRequest (trim (userInput s))]\<rparr>)"
    if idle: "typingEl s = None" "indicators (chat s) = []" and uid: "trim (userInput s) \<noteq> []"
  proof -
    have fresh: "Indicator (created s) \<notin> set (chat s)"
      using idle(2) by (simp add: Indicator_in_set)
    then have "remove1 (Indicator (created s)) (chat s) = chat s"
      by (simp add: remove1_idem)
    with idle uid fresh show ?thesis
      by (simp add: startSession_unfold resume startSession_enter_def showTyping_def
          hidden_def remove1_append)
  qed
  with resume show ?thesis by blast
qed

theorem startSession_failure_keeps_user_witness:
  "startSession Rejected ((page [])\<lparr>userInput := js '' alice ''\<rparr>) =
     Inr \<lparr>currentUser = js ''alice'', typingEl = None,
          chat = [Message (js ''msg assistant-msg'')
                    (js ''<p>Failed to start session. Please try again.</p>'')],
          userInput = js '' alice '', msgInput = [], created = 1, alerts = [],
          console = [LogError NetworkError],
          requests = [StartSessionRequest (js ''alice'')], awaiting = []\<rparr>"
  using startSession_failure_keeps_user
    [where s = "(page [])\<lparr>userInput := js '' alice ''\<rparr>" and resp = Rejected and ok = True]
  by (simp add: page_def trim_alice)

section \<open>A start that succeeds\<close>

text \<open>
  Claim C5: when \<^verbatim>\<open>startSession\<close>, called with a user id that is not empty after
  trimming, receives an ok response whose body parses to \<^verbatim>\<open>{message:"Hi"}\<close>, the
  indicator is hidden (the slot is empty), the log is cleared and then holds exactly
  one row, the assistant message with the text Hi, and \<^verbatim>\<open>currentUser\<close> is the trimmed
  user id. This holds from every state, whatever the log held before. The second part
  is the completion by itself, for a request during which other handlers have run:
  the slot is emptied and the log is that one row.
\<close>

theorem startSession_success_Hi:
  "(trim (userInput s) \<noteq> [] \<longrightarrow>
      startSession (Body True (JObj [(js ''message'', JStr (js ''Hi''))])) s =
        Inr (s\<lparr>currentUser := trim (userInput s), typingEl := None,
              chat := [Message (js ''msg assistant-msg'') (js ''<p>Hi</p>'')],
              created := (if typingEl s = None then Suc (created s) else created s),
              requests := requests s @ [StartSessionRequest (trim (userInput s))]\<rparr>)) \<and>
   startSession_resume (Body True (JObj [(js ''message'', JStr (js ''Hi''))])) s =
     Inr (s\<lparr>typingEl := None,
           chat := [Message (js ''msg assistant-msg'') (js ''<p>Hi</p>'')]\<rparr>)"
  by (auto simp: startSession_unfold startSession_enter_def showTyping_def
      startSession_resume_def startSession_try_def hideTyping_hidden
      addMessage_assistant hi_markup split: option.splits)

theorem startSession_success_Hi_witness:
  "startSession (Body True (JObj [(js ''message'', JStr (js ''Hi''))]))
     ((page [Message (js ''msg user-msg'') (js ''<p>old</p>'')])\<lparr>userInput := js '' alice ''\<rparr>) =
     Inr \<lparr>currentUser = js ''alice'', typingEl = None,
          chat = [Message (js ''msg assistant-msg'') (js ''<p>Hi</p>'')],
          userInput = js '' alice '', msgInput = [], created = 1, alerts = [],
          console = [],
          requests = [StartSessionRequest (js ''alice'')], awaiting = []\<rparr>"
  using startSession_success_Hi
    [of "(page [Message (js ''msg user-msg'') (js ''<p>old</p>'')])\<lparr>userInput := js '' alice ''\<rparr>"]
  by (simp add: page_def trim_alice)

section \<open>hideTyping\<close>

text \<open>
  Claim C8: \<^verbatim>\<open>hideTyping\<close> with an empty slot returns and changes nothing, the log
  included. With an indicator in the slot it removes the indicator from the log when
  the indicator is a child of the log; when it is not (a detached indicator), it calls
  no \<^verbatim>\<open>removeChild\<close>, which would raise a NotFoundError there, and only empties the
  slot. It never raises.
\<close>

theorem hideTyping_guarded:
  "(typingEl s = None \<longrightarrow> hideTyping s = Inr s) \<and>
   (\<forall>i. typingEl s = Some i \<and> Indicator i \<in> set (chat s) \<longrightarrow>
      hideTyping s = Inr (s\<lparr>chat := remove1 (Indicator i) (chat s), typingEl := None\<rparr>)) \<and>
   (\<forall>i. typingEl s = Some i \<and> Indicator i \<notin> set (chat s) \<longrightarrow>
      removeChild (Indicator i) s = Inl (NotFoundError, s) \<and>
      hideTyping s = Inr (s\<lparr>typingEl := None\<rparr>))"
  by (simp add: hideTyping_def removeChild_def)

theorem hideTyping_guarded_witness:
  "hideTyping (page []) = Inr (page []) \<and>
   hideTyping (showTyping (page [])) = Inr ((page [])\<lparr>created := 1\<rparr>) \<and>
   removeChild (Indicator 0) ((showTyping (page []))\<lparr>chat := []\<rparr>) =
     Inl (NotFoundError, (showTyping (page []))\<lparr>chat := []\<rparr>) \<and>
   hideTyping ((showTyping (page []))\<lparr>chat := []\<rparr>) = Inr ((page [])\<lparr>created := 1\<rparr>)"
  using hideTyping_guarded [of "page []"] hideTyping_guarded [of "showTyping (page [])"]
    hideTyping_guarded [of "(showTyping (page []))\<lparr>chat := []\<rparr>"]
  by (simp add: page_def showTyping_def)

section \<open>send without text or without a session\<close>

text \<open>
  Claim C6: when the trimmed message text is empty or \<^verbatim>\<open>currentUser\<close> is empty,
  \<^verbatim>\<open>send\<close> returns the state it was called in: no request is issued, the log and the
  input field are unchanged, no indicator is shown. The same holds for the click and
  the key handlers that call it.
\<close>

theorem send_needs_text_and_session:
  assumes "trim (msgInput s) = [] \<or> currentUser s = []"
  shows "send_begin s = Inr s \<and> send resp s = Inr s \<and>
         step ClickSend s = Inr s \<and> step (KeyDown k) s = Inr s"
  using assms by (auto simp: send_begin_def send_def)

lemma trim_blank: "trim (js ''  '') = []"
  by (simp add: trim_def js_def is_white_space_def)

lemma trim_hello: "trim (js ''hello'') = js ''hello''"
  by (simp add: trim_def js_def is_white_space_def is_line_terminator_def)

theorem send_needs_text_and_session_witness:
  "send Rejected ((page [])\<lparr>msgInput := js ''hello''\<rparr>) =
     Inr ((page [])\<lparr>msgInput := js ''hello''\<rparr>) \<and>
   send Rejected ((page [])\<lparr>currentUser := js ''alice'', msgInput := js ''  ''\<rparr>) =
     Inr ((page [])\<lparr>currentUser := js ''alice'', msgInput := js ''  ''\<rparr>)"
  using send_needs_text_and_session [of "(page [])\<lparr>msgInput := js ''hello''\<rparr>" Rejected "[]"]
    send_needs_text_and_session
      [of "(page [])\<lparr>currentUser := js ''alice'', msgInput := js ''  ''\<rparr>" Rejected "[]"]
  by (simp add: page_def trim_blank)

section \<open>Who assigns currentUser\<close>

lemma currentUser_startSession_resume [simp]:
  "currentUser (final (startSession_resume resp s)) = currentUser s"
  using startSession_resume_shape [of resp s] by auto

lemma currentUser_send_resume [simp]:
  "currentUser (final (send_resume resp s)) = currentUser s"
  using send_resume_shape [of resp s] by auto

lemma currentUser_settle [simp]: "currentUser (final (settle i resp s)) = currentUser s"
  by (simp add: settle_def Let_def split: continuation.splits)

lemma currentUser_send_begin [simp]: "currentUser (final (send_begin s)) = currentUser s"
  by (simp add: send_begin_def Let_def addMessage_user dispatch_def)

lemma currentUser_startSession_begin:
  "currentUser (final (startSession_begin s)) =
     (if trim (userInput s) = [] then currentUser s else trim (userInput s))"
  by (simp add: startSession_begin_def Let_def dispatch_def startSession_enter_def)

lemma currentUser_step:
  "currentUser (final (step e s)) =
     (if e = ClickStart \<and> trim (userInput s) \<noteq> [] then trim (userInput s)
      else currentUser s)"
  by (cases e) (simp_all add: currentUser_startSession_begin)

lemma currentUser_step_kept:
  "currentUser s \<noteq> [] \<Longrightarrow> currentUser (final (step e s)) \<noteq> []"
  by (simp add: currentUser_step)

lemma currentUser_run_kept:
  "currentUser s \<noteq> [] \<Longrightarrow> currentUser (run es s) \<noteq> []"
  by (induction es arbitrary: s) (simp_all add: currentUser_step_kept)

text \<open>
  Claim C2 says that \<^verbatim>\<open>currentUser\<close> is set at most once, and only by a start that
  succeeded. On the page as loaded with \<open>alice\<close> typed in, a start whose request is
  rejected leaves \<^verbatim>\<open>currentUser\<close> equal to \<open>alice\<close>; when the user then types \<open>bob\<close>
  and presses start again, \<^verbatim>\<open>currentUser\<close> is \<open>bob\<close> as soon as the handler has run,
  before any response.
\<close>

theorem currentUser_set_once_counterexample:
  "currentUser (run [ClickStart, Settle 0 Rejected]
     ((page [])\<lparr>userInput := js ''alice''\<rparr>)) = js ''alice'' \<and>
   currentUser (run [ClickStart, Settle 0 Rejected, EditUser (js ''bob''), ClickStart]
     ((page [])\<lparr>userInput := js ''alice''\<rparr>)) = js ''bob'' \<and>
   js ''alice'' \<noteq> js ''bob'' \<and> js ''alice'' \<noteq> []"
  by code_simp

text \<open>
  Claim C2, amended: \<^verbatim>\<open>currentUser\<close> is assigned by \<^verbatim>\<open>startSession\<close> alone, at the
  moment a click on start passes the validation of the user id, and to the trimmed
  user id, each time this happens; no other event (an edit, a send, a key, the
  completion of either kind of request, whatever its outcome) changes it. Once it is
  not empty it never becomes empty again.
\<close>

theorem currentUser_assigned_by_start_click:
  "currentUser (final (step e s)) =
     (if e = ClickStart \<and> trim (userInput s) \<noteq> [] then trim (userInput s)
      else currentUser s) \<and>
   (currentUser s \<noteq> [] \<longrightarrow> currentUser (run es s) \<noteq> [])"
  by (simp add: currentUser_step currentUser_run_kept)

theorem currentUser_assigned_by_start_click_witness:
  "currentUser (final (step ClickStart ((page [])\<lparr>userInput := js '' alice ''\<rparr>))) = js ''alice'' \<and>
   currentUser (final (step (Settle 0 Rejected)
     ((page [])\<lparr>currentUser := js ''alice'', awaiting := [AwaitStart]\<rparr>))) = js ''alice'' \<and>
   currentUser (run [Settle 0 Rejected, EditUser [], ClickStart, ClickSend]
     ((page [])\<lparr>currentUser := js ''alice'', awaiting := [AwaitStart]\<rparr>)) \<noteq> []"
  using currentUser_assigned_by_start_click
      [of ClickStart "(page [])\<lparr>userInput := js '' alice ''\<rparr>" "[]"]
    currentUser_assigned_by_start_click
      [of "Settle 0 Rejected" "(page [])\<lparr>currentUser := js ''alice'', awaiting := [AwaitStart]\<rparr>"
          "[Settle 0 Rejected, EditUser [], ClickStart, ClickSend]"]
  by (simp add: page_def trim_alice)

section \<open>currentUser during the request\<close>

text \<open>
  Claim C10: once \<^verbatim>\<open>startSession\<close> has passed its validation, \<^verbatim>\<open>currentUser\<close> is the
  trimmed user id already before the request is issued (after lines 61 and 62 the list
  of requests is still the old one), when the handler has reached its \<^verbatim>\<open>await\<close>,
  and after the call has completed with any response. So a \<^verbatim>\<open>send\<close> with a non-empty
  text, run while the start request is outstanding, issues its chat request for that
  user.
\<close>

theorem currentUser_set_on_entry:
  assumes "trim (userInput s) \<noteq> []"
  shows "currentUser (startSession_enter (trim (userInput s)) s) = trim (userInput s) \<and>
    requests (startSession_enter (trim (userInput s)) s) = requests s \<and>
    startSession_begin s =
      Inr (dispatch (StartSessionRequest (trim (userInput s))) AwaitStart
             (startSession_enter (trim (userInput s)) s)) \<and>
    currentUser (final (startSession_begin s)) = trim (userInput s) \<and>
    currentUser (final (startSession resp s)) = trim (userInput s) \<and>
    (trim m \<noteq> [] \<longrightarrow>
       requests (final (send_begin ((final (startSession_begin s))\<lparr>msgInput := m\<rparr>))) =
         requests s @ [StartSessionRequest (trim (userInput s)),
                       ChatRequest (trim (userInput s)) (trim m)])"
  using assms
  by (simp add: startSession_unfold startSession_enter_def startSession_begin_def
      send_begin_def Let_def dispatch_def addMessage_user)

theorem currentUser_set_on_entry_witness:
  "currentUser (final (startSession_begin ((page [])\<lparr>userInput := js '' alice ''\<rparr>))) = js ''alice'' \<and>
   currentUser (final (startSession (Body False JNull) ((page [])\<lparr>userInput := js '' alice ''\<rparr>))) =
     js ''alice'' \<and>
   requests (final (send_begin
     ((final (startSession_begin ((page [])\<lparr>userInput := js '' alice ''\<rparr>)))\<lparr>msgInput := js ''hello''\<rparr>))) =
     [StartSessionRequest (js ''alice''), ChatRequest (js ''alice'') (js ''hello'')]"
proof -
  let ?s = "(page [])\<lparr>userInput := js '' alice ''\<rparr>"
  have u: "trim (userInput ?s) \<noteq> []"
    by (simp add: page_def trim_alice)
  note entry = currentUser_set_on_entry [OF u, of "Body False JNull" "js ''hello''"]
  note later = entry [THEN conjunct2, THEN conjunct2, THEN conjunct2]
  from later show ?thesis
    by (simp add: page_def trim_alice trim_hello)
qed

section \<open>One indicator\<close>


lemma slot_owns_hidden: "slot_owns s \<Longrightarrow> indicators (hidden s) = []"
  by (auto simp: slot_owns_def hidden_def indicators_remove1 split: option.splits)



lemma slot_owns_awaiting [simp]: "slot_owns (s\<lparr>awaiting := a\<rparr>) = slot_owns s"
  by (simp add: slot_owns_def)

lemma slot_owns_requests [simp]: "slot_owns (s\<lparr>requests := a\<rparr>) = slot_owns s"
  by (simp add: slot_owns_def)












section \<open>A chat request that fails\<close>

lemma send_unfold:
  assumes "trim (msgInput s) \<noteq> []" and "currentUser s \<noteq> []"
  shows "send resp s =
     send_resume resp
       ((showTyping (s\<lparr>chat := chat s @ [Message (js ''msg user-msg'')
            (js ''<p>'' @ format_text (trim (msgInput s)) @ js ''</p>'')], msgInput := []\<rparr>))
          \<lparr>requests := requests s @ [ChatRequest (currentUser s) (trim (msgInput s))]\<rparr>)"
proof -
  let ?t = "trim (msgInput s)"
  let ?s2 = "showTyping (s\<lparr>chat := chat s @ [Message (js ''msg user-msg'')
            (js ''<p>'' @ format_text ?t @ js ''</p>'')], msgInput := []\<rparr>)"
  have a: "awaiting ?s2 = awaiting s" and r: "requests ?s2 = requests s"
    and c: "currentUser ?s2 = currentUser s"
    by simp_all
  from assms have "send resp s =
      settle (length (awaiting ?s2)) resp (dispatch (ChatRequest (currentUser s) ?t) AwaitChat ?s2)"
    by (simp add: send_def send_begin_def a Let_def addMessage_user)
  also have "\<dots> = send_resume resp (?s2\<lparr>requests := requests ?s2 @ [ChatRequest (currentUser s) ?t]\<rparr>)"
    by (rule settle_last_chat)
  finally show ?thesis by (simp only: r)
qed

text \<open>
  Claim C7: for every call of \<^verbatim>\<open>send\<close> with a text that is not empty after trimming
  and a session, from a state where slot and log agree, in which the request is
  rejected or the body is not JSON: the call returns (the error is caught and printed,
  not raised again), the slot is empty and no indicator is attached to the log, and
  the log has gained the user's message and after it the generic network error
  message. The last part is the completion by itself, for a request during which
  other handlers have run: the error is caught, no indicator stays attached, and the
  network error message is appended to the log as it is then.
\<close>

theorem send_transport_failure:
  assumes "slot_owns s" and "resp = Rejected \<or> resp = NotJson ok"
  shows "(trim (msgInput s) \<noteq> [] \<and> currentUser s \<noteq> [] \<longrightarrow>
     send resp s =
       Inr (s\<lparr>typingEl := None,
           chat := hidden s @
             [Message (js ''msg user-msg'')
                (js ''<p>'' @ format_text (trim (msgInput s)) @ js ''</p>''),
              Message (js ''msg assistant-msg'') (js ''<p>Network error. Please try again.</p>'')],
           msgInput := [],
           created := (if typingEl s = None then Suc (created s) else created s),
           console := console s @
             [LogError (if resp = Rejected then NetworkError else SyntaxError)],
           requests := requests s @ [ChatRequest (currentUser s) (trim (msgInput s))]\<rparr>)) \<and>
     indicators (hidden s) = [] \<and>
     send_resume resp s =
       Inr (s\<lparr>typingEl := None,
           chat := hidden s @
             [Message (js ''msg assistant-msg'') (js ''<p>Network error. Please try again.</p>'')],
           console := console s @
             [LogError (if resp = Rejected then NetworkError else SyntaxError)]\<rparr>)"
proof -
  have resume: "send_resume resp s' =
       Inr (s'\<lparr>typingEl := None,
           chat := hidden s' @
             [Message (js ''msg assistant-msg'') (js ''<p>Network error. Please try again.</p>'')],
           console := console s' @
             [LogError (if resp = Rejected then NetworkError else SyntaxError)]\<rparr>)" for s'
    using assms(2)
    by (auto simp: send_resume_def send_try_def send_catch_returns network_markup)
  have "send resp s =
       Inr (s\<lparr>typingEl := None,
           chat := hidden s @
             [Message (js ''msg user-msg'')
                (js ''<p>'' @ format_text (trim (msgInput s)) @ js ''</p>''),
              Message (js ''msg assistant-msg'') (js ''<p>Network error. Please try again.</p>'')],
           msgInput := [],
           created := (if typingEl s = None then Suc (created s) else created s),
           console := console s @
             [LogError (if resp = Rejected then NetworkError else SyntaxError)],
           requests := requests s @ [ChatRequest (currentUser s) (trim (msgInput s))]\<rparr>)"
    if msg: "trim (msgInput s) \<noteq> []" and usr: "currentUser s \<noteq> []"
  proof (cases "typingEl s")
    case None
    with assms(1) have fresh: "Indicator (created s) \<notin> set (chat s)"
      by (simp add: slot_owns_def Indicator_in_set)
    then have "remove1 (Indicator (created s)) (chat s) = chat s"
      by (simp add: remove1_idem)
    with None fresh show ?thesis
      by (simp add: send_unfold [OF msg usr] resume showTyping_def hidden_def remove1_append)
  next
    case (Some i)
    with assms(1) have "Indicator i \<in> set (chat s)"
      by (simp add: slot_owns_def Indicator_in_set)
    with Some show ?thesis
      by (simp add: send_unfold [OF msg usr] resume showTyping_def hidden_def remove1_append)
  qed
  with resume slot_owns_hidden [OF assms(1)] show ?thesis by blast
qed

theorem send_transport_failure_witness:
  "send Rejected ((page [])\<lparr>currentUser := js ''alice'', msgInput := js ''hello''\<rparr>) =
     Inr \<lparr>currentUser = js ''alice'', typingEl = None,
          chat = [Message (js ''msg user-msg'') (js ''<p>hello</p>''),
                  Message (js ''msg assistant-msg'') (js ''<p>Network error. Please try again.</p>'')],
          userInput = [], msgInput = [], created = 1, alerts = [],
          console = [LogError NetworkError],
          requests = [ChatRequest (js ''alice'') (js ''hello'')], awaiting = []\<rparr>"
proof -
  let ?s = "(page [])\<lparr>currentUser := js ''alice'', msgInput := js ''hello''\<rparr>"
  have "format_text (js ''hello'') = js ''hello''"
    by code_simp
  moreover have "js ''<p>'' @ js ''hello'' @ js ''</p>'' = js ''<p>hello</p>''"
    by (simp add: js_def)
  moreover have "slot_owns ?s" "trim (msgInput ?s) \<noteq> []" "currentUser ?s \<noteq> []"
    by (simp_all add: slot_owns_def page_def trim_hello)
  moreover
  note send_transport_failure [where s = ?s and resp = Rejected and ok = True, THEN conjunct1]
  ultimately show ?thesis
    by (simp add: page_def trim_hello)
qed

section \<open>The substitutions of renderText\<close>

lemma lazy_dots_Some:
  "lazy_dots d s = Some (g, r) \<Longrightarrow>
     s = g @ d @ r \<and> (\<forall>k<length g. \<not> prefix d (drop k s))"
proof (induction s arbitrary: g)
  case Nil
  then show ?case by (simp split: if_splits)
next
  case (Cons c cs)
  show ?case
  proof (cases "prefix d (c # cs)")
    case True
    with Cons.prems have "g = []" and "r = drop (length d) (c # cs)"
      by simp_all
    with True show ?thesis
      by (metis append_Nil append_take_drop_id less_nat_zero_code list.size(3) prefix_def
          append_eq_conv_conj)
  next
    case False
    with Cons.prems obtain g' where g': "lazy_dots d cs = Some (g', r)" and g: "g = c # g'"
      by (auto split: if_splits)
    from Cons.IH [OF g'] have cs: "cs = g' @ d @ r"
      and least: "\<forall>k<length g'. \<not> prefix d (drop k cs)"
      by blast+
    have "\<not> prefix d (drop k (c # cs))" if "k < length g" for k
    proof (cases k)
      case 0
      with False show ?thesis by simp
    next
      case (Suc k')
      with that g have "k' < length g'" by simp
      with least Suc show ?thesis by simp
    qed
    with cs g show ?thesis by simp
  qed
qed

lemma match_emph_Some:
  assumes "match_emph d s = Some (g, r)"
  shows "s = d @ g @ d @ r \<and> g \<noteq> [] \<and>
         (\<forall>k. 0 < k \<and> k < length g \<longrightarrow> \<not> prefix d (drop k (g @ d @ r)))"
proof -
  from assms have p: "prefix d s"
    by (simp add: match_emph_def split: if_splits)
  from assms p obtain c cs g' where s: "drop (length d) s = c # cs"
    and l: "lazy_dots d cs = Some (g', r)" and g: "g = c # g'"
    by (auto simp: match_emph_def split: if_splits list.splits)
  from lazy_dots_Some [OF l] have cs: "cs = g' @ d @ r"
    and least: "\<forall>k<length g'. \<not> prefix d (drop k cs)"
    by blast+
  from p s have "s = d @ c # cs"
    by (metis append_take_drop_id prefix_def append_eq_conv_conj)
  with cs g have whole: "s = d @ g @ d @ r" by simp
  have "\<not> prefix d (drop k (g @ d @ r))" if "0 < k" "k < length g" for k
  proof -
    from that obtain k' where k: "k = Suc k'" by (cases k) simp_all
    with that g have "k' < length g'" by simp
    with least have "\<not> prefix d (drop k' cs)" by simp
    with k g cs show ?thesis by simp
  qed
  with whole g show ?thesis by simp
qed

lemma replace_emph_Nil [simp]: "replace_emph d opn cls [] = []"
  by (simp add: replace_emph.simps)

lemma replace_emph_Cons:
  "replace_emph d opn cls (c # cs) =
     (case match_emph d (c # cs) of
        Some (g, r) \<Rightarrow> opn @ g @ cls @ replace_emph d opn cls r
      | None \<Rightarrow> c # replace_emph d opn cls cs)"
  by (subst replace_emph.simps) simp

section \<open>Paragraph boundaries\<close>

lemma scan_Nil [simp]: "scan p q [] = q"
  by (simp add: scan_def)

lemma scan_Cons [simp]: "scan p q (c # cs) = scan p (advance p q c) cs"
  by (simp add: scan_def)

lemma scan_append: "scan p q (xs @ ys) = scan p (scan p q xs) ys"
  by (simp add: scan_def)

lemma advance_bound: "q \<le> length p \<Longrightarrow> advance p q c \<le> length p"
  by (cases p) (auto simp: advance_def)

lemma scan_bound: "q \<le> length p \<Longrightarrow> scan p q s \<le> length p"
  by (induction s arbitrary: q) (simp_all add: advance_bound)

lemma scan_stuck: "length p \<le> q \<Longrightarrow> scan p q s = q"
  by (induction s arbitrary: q) (simp_all add: advance_def)

lemma prefix_drop_Cons:
  "q < length p \<Longrightarrow> prefix (drop q p) (c # cs) \<longleftrightarrow> p ! q = c \<and> prefix (drop (Suc q) p) cs"
  by (simp add: Cons_nth_drop_Suc [symmetric])

lemma scan_found:
  assumes "plain p"
  shows "q \<le> length p \<Longrightarrow>
     scan p q s = length p \<longleftrightarrow> sublist p s \<or> prefix (drop q p) s"
proof (induction s arbitrary: q)
  case Nil
  from assms have "p \<noteq> []" by (simp add: plain_def)
  with Nil show ?case by auto
next
  case (Cons c cs)
  from assms have ne: "p \<noteq> []" by (simp add: plain_def)
  then have zero: "prefix p (c # cs) \<longleftrightarrow> p ! 0 = c \<and> prefix (drop (Suc 0) p) cs"
    using prefix_drop_Cons [of 0 p c cs] by simp
  show ?case
  proof (cases "q = length p")
    case True
    then show ?thesis by (simp add: scan_stuck advance_def)
  next
    case False
    with Cons.prems have q: "q < length p" by simp
    consider (hit) "p ! q = c" | (restart) "p ! q \<noteq> c" "p ! 0 = c"
      | (miss) "p ! q \<noteq> c" "p ! 0 \<noteq> c"
      by blast
    then show ?thesis
    proof cases
      case hit
      with q have a: "advance p q c = Suc q" by (simp add: advance_def)
      from q have "Suc q \<le> length p" by simp
      from Cons.IH [OF this]
      have ih: "scan p (Suc q) cs = length p \<longleftrightarrow> sublist p cs \<or> prefix (drop (Suc q) p) cs" .
      have "prefix (drop (Suc q) p) cs" if "prefix p (c # cs)"
      proof (cases "q = 0")
        case True
        with that zero show ?thesis by simp
      next
        case False
        from that zero hit have "p ! q = p ! 0" by simp
        with assms False have "\<not> Suc q < length p"
          by (auto simp: plain_def)
        with q show ?thesis by simp
      qed
      with a ih hit q show ?thesis
        by (auto simp: sublist_Cons_right prefix_drop_Cons)
    next
      case restart
      with q have a: "advance p q c = 1" by (simp add: advance_def)
      from ne have "1 \<le> length p" by (cases p) simp_all
      from Cons.IH [OF this]
      have ih: "scan p 1 cs = length p \<longleftrightarrow> sublist p cs \<or> prefix (drop 1 p) cs" .
      from a ih restart q zero show ?thesis
        by (auto simp: sublist_Cons_right prefix_drop_Cons)
    next
      case miss
      with q have a: "advance p q c = 0" by (simp add: advance_def)
      from Cons.IH [of 0]
      have ih: "scan p 0 cs = length p \<longleftrightarrow> sublist p cs \<or> prefix p cs" by simp
      from a ih miss q zero show ?thesis
        by (auto simp: sublist_Cons_right prefix_drop_Cons)
    qed
  qed
qed

lemma scan_sublist: "plain p \<Longrightarrow> scan p 0 s = length p \<longleftrightarrow> sublist p s"
  using scan_found [of p 0 s] by auto

lemma scan_replace_emph:
  assumes "\<And>q. scan p q opn = scan p q d" and "\<And>q. scan p q cls = scan p q d"
  shows "scan p q (replace_emph d opn cls s) = scan p q s"
proof (induction "length s" arbitrary: s q rule: less_induct)
  case less
  show ?case
  proof (cases s)
    case Nil
    then show ?thesis by simp
  next
    case (Cons c cs)
    show ?thesis
    proof (cases "match_emph d s")
      case None
      with Cons less.hyps [of cs] show ?thesis
        by (simp add: replace_emph_Cons)
    next
      case (Some m)
      obtain g r where m: "m = (g, r)" by (cases m)
      with Some have s: "s = d @ g @ d @ r" and len: "length r < length s"
        using match_emph_Some [of d s g r] match_emph_length [of d s g r] by simp_all
      from Some m Cons have "replace_emph d opn cls s = opn @ g @ cls @ replace_emph d opn cls r"
        by (simp add: replace_emph_Cons)
      then have "scan p q (replace_emph d opn cls s) =
          scan p (scan p (scan p (scan p q opn) g) cls) (replace_emph d opn cls r)"
        by (simp add: scan_append)
      also have "\<dots> = scan p (scan p (scan p (scan p q d) g) d) r"
        by (simp add: assms less.hyps [OF len])
      also have "\<dots> = scan p q (d @ g @ d @ r)"
        by (simp add: scan_append)
      finally show ?thesis using s by simp
    qed
  qed
qed

lemma scan_replace_pair:
  assumes "\<And>q. scan p q r = scan p q [a, b]"
  shows "scan p q (replace_pair a b r s) = scan p q s"
proof (induction "length s" arbitrary: s q rule: less_induct)
  case less
  show ?case
  proof (cases s)
    case Nil
    then show ?thesis by simp
  next
    case (Cons x s')
    show ?thesis
    proof (cases s')
      case Nil
      with Cons show ?thesis by simp
    next
      case (Cons y zs)
      with \<open>s = x # s'\<close> have s: "s = x # y # zs" by simp
      show ?thesis
      proof (cases "x = a \<and> y = b")
        case True
        with s have "scan p q (replace_pair a b r s) = scan p (scan p q r) (replace_pair a b r zs)"
          by (simp add: scan_append)
        also have "\<dots> = scan p (scan p q [a, b]) zs"
          using less.hyps [of zs] s by (simp add: assms)
        also have "\<dots> = scan p q s"
          using True s by simp
        finally show ?thesis .
      next
        case False
        with s less.hyps [of "y # zs"] show ?thesis by auto
      qed
    qed
  qed
qed

lemma scan_same:
  assumes "\<And>q. q < length p \<Longrightarrow> scan p q x = 0" and "\<And>q. q < length p \<Longrightarrow> scan p q y = 0"
  shows "scan p q x = scan p q y"
proof (cases "q < length p")
  case True
  with assms show ?thesis by simp
next
  case False
  then show ?thesis by (simp add: scan_stuck)
qed

lemma literals:
  "js ''<p>'' = [0x3C, 0x70, 0x3E]"
  "js ''</p>'' = [0x3C, 0x2F, 0x70, 0x3E]"
  "js ''**'' = [0x2A, 0x2A]"
  "js ''*'' = [0x2A]"
  "js ''<strong>'' = [0x3C, 0x73, 0x74, 0x72, 0x6F, 0x6E, 0x67, 0x3E]"
  "js ''</strong>'' = [0x3C, 0x2F, 0x73, 0x74, 0x72, 0x6F, 0x6E, 0x67, 0x3E]"
  "js ''<em>'' = [0x3C, 0x65, 0x6D, 0x3E]"
  "js ''</em>'' = [0x3C, 0x2F, 0x65, 0x6D, 0x3E]"
  "js ''<br>'' = [0x3C, 0x62, 0x72, 0x3E]"
  by (simp_all add: js_def)

lemma plain_patterns:
  "plain [0x0A, 0x0A]" "plain (js ''<p>'')" "plain (js ''</p>'')"
  by (auto simp: plain_def literals nth_Cons split: nat.splits)

lemma below:
  "q < 2 \<longleftrightarrow> q = 0 \<or> q = 1"
  "q < 3 \<longleftrightarrow> q = 0 \<or> q = 1 \<or> q = 2"
  "q < 4 \<longleftrightarrow> q = 0 \<or> q = 1 \<or> q = 2 \<or> q = 3"
  for q :: nat
  by arith+

lemma breaks_reset:
  assumes "q < length [0x0A, 0x0A :: jschar]"
  shows "scan [0x0A, 0x0A] q (js ''**'') = 0" "scan [0x0A, 0x0A] q (js ''<strong>'') = 0"
    "scan [0x0A, 0x0A] q (js ''</strong>'') = 0" "scan [0x0A, 0x0A] q (js ''*'') = 0"
    "scan [0x0A, 0x0A] q (js ''<em>'') = 0" "scan [0x0A, 0x0A] q (js ''</em>'') = 0"
proof -
  from assms have "q < 2" by simp
  then show "scan [0x0A, 0x0A] q (js ''**'') = 0" "scan [0x0A, 0x0A] q (js ''<strong>'') = 0"
    "scan [0x0A, 0x0A] q (js ''</strong>'') = 0" "scan [0x0A, 0x0A] q (js ''*'') = 0"
    "scan [0x0A, 0x0A] q (js ''<em>'') = 0" "scan [0x0A, 0x0A] q (js ''</em>'') = 0"
    unfolding below literals
    by (elim disjE; simp add: advance_def)+
qed

lemma open_reset:
  assumes "q < length (js ''<p>'')"
  shows "scan (js ''<p>'') q (js ''**'') = 0" "scan (js ''<p>'') q (js ''<strong>'') = 0"
    "scan (js ''<p>'') q (js ''</strong>'') = 0" "scan (js ''<p>'') q (js ''*'') = 0"
    "scan (js ''<p>'') q (js ''<em>'') = 0" "scan (js ''<p>'') q (js ''</em>'') = 0"
    "scan (js ''<p>'') q [0x0A, 0x2D] = 0" "scan (js ''<p>'') q (js ''<br>'' @ [0x2022]) = 0"
proof -
  from assms have "q < 3" by (simp add: js_def)
  then show "scan (js ''<p>'') q (js ''**'') = 0" "scan (js ''<p>'') q (js ''<strong>'') = 0"
    "scan (js ''<p>'') q (js ''</strong>'') = 0" "scan (js ''<p>'') q (js ''*'') = 0"
    "scan (js ''<p>'') q (js ''<em>'') = 0" "scan (js ''<p>'') q (js ''</em>'') = 0"
    "scan (js ''<p>'') q [0x0A, 0x2D] = 0" "scan (js ''<p>'') q (js ''<br>'' @ [0x2022]) = 0"
    unfolding below literals
    by (elim disjE; simp add: advance_def)+
qed

lemma close_reset:
  assumes "q < length (js ''</p>'')"
  shows "scan (js ''</p>'') q (js ''**'') = 0" "scan (js ''</p>'') q (js ''<strong>'') = 0"
    "scan (js ''</p>'') q (js ''</strong>'') = 0" "scan (js ''</p>'') q (js ''*'') = 0"
    "scan (js ''</p>'') q (js ''<em>'') = 0" "scan (js ''</p>'') q (js ''</em>'') = 0"
    "scan (js ''</p>'') q [0x0A, 0x2D] = 0" "scan (js ''</p>'') q (js ''<br>'' @ [0x2022]) = 0"
proof -
  from assms have "q < 4" by (simp add: js_def)
  then show "scan (js ''</p>'') q (js ''**'') = 0" "scan (js ''</p>'') q (js ''<strong>'') = 0"
    "scan (js ''</p>'') q (js ''</strong>'') = 0" "scan (js ''</p>'') q (js ''*'') = 0"
    "scan (js ''</p>'') q (js ''<em>'') = 0" "scan (js ''</p>'') q (js ''</em>'') = 0"
    "scan (js ''</p>'') q [0x0A, 0x2D] = 0" "scan (js ''</p>'') q (js ''<br>'' @ [0x2022]) = 0"
    unfolding below literals
    by (elim disjE; simp add: advance_def)+
qed

lemma replace_pair_absent: "\<not> sublist [a, b] s \<Longrightarrow> replace_pair a b r s = s"
proof (induction a b r s rule: replace_pair.induct)
  case (1 a b r x y zs)
  then show ?case by (auto simp: sublist_Cons_right)
qed simp_all

lemma count_sub_zero: "p \<noteq> [] \<Longrightarrow> count_sub p s = 0 \<longleftrightarrow> \<not> sublist p s"
  by (induction s) (auto simp: sublist_Cons_right)

lemma count_sub_snoc:
  assumes "p \<noteq> []"
  shows "count_sub p (s @ [c]) = count_sub p s + (if suffix p (s @ [c]) then 1 else 0)"
proof (induction s)
  case Nil
  from assms show ?case by (cases p) (auto simp: suffix_Cons)
next
  case (Cons a s)
  have whole: "\<not> prefix (a # s @ [c]) (a # s)" "\<not> suffix (a # s @ [c]) (s @ [c])"
    by (auto dest: prefix_length_le suffix_length_le)
  have "prefix p (a # s @ [c]) \<longleftrightarrow> prefix p (a # s) \<or> p = a # s @ [c]"
    using prefix_snoc [of p "a # s" c] by auto
  moreover have "suffix p (a # s @ [c]) \<longleftrightarrow> suffix p (s @ [c]) \<or> p = a # s @ [c]"
    by (auto simp: suffix_Cons)
  ultimately show ?case
    using Cons whole by auto
qed

lemma breaks_kept: "scan [0x0A, 0x0A] q (replace_italic (replace_bold s)) = scan [0x0A, 0x0A] q s"
proof -
  have "scan [0x0A, 0x0A] q (replace_italic (replace_bold s)) = scan [0x0A, 0x0A] q (replace_bold s)"
    unfolding replace_italic_def
    by (rule scan_replace_emph; rule scan_same) (rule breaks_reset, assumption)+
  also have "\<dots> = scan [0x0A, 0x0A] q s"
    unfolding replace_bold_def
    by (rule scan_replace_emph; rule scan_same) (rule breaks_reset, assumption)+
  finally show ?thesis .
qed

lemma open_kept_emph: "scan (js ''<p>'') q (replace_italic (replace_bold s)) = scan (js ''<p>'') q s"
proof -
  have "scan (js ''<p>'') q (replace_italic (replace_bold s)) = scan (js ''<p>'') q (replace_bold s)"
    unfolding replace_italic_def
    by (rule scan_replace_emph; rule scan_same) (rule open_reset, assumption)+
  also have "\<dots> = scan (js ''<p>'') q s"
    unfolding replace_bold_def
    by (rule scan_replace_emph; rule scan_same) (rule open_reset, assumption)+
  finally show ?thesis .
qed

lemma close_kept_emph: "scan (js ''</p>'') q (replace_italic (replace_bold s)) = scan (js ''</p>'') q s"
proof -
  have "scan (js ''</p>'') q (replace_italic (replace_bold s)) = scan (js ''</p>'') q (replace_bold s)"
    unfolding replace_italic_def
    by (rule scan_replace_emph; rule scan_same) (rule close_reset, assumption)+
  also have "\<dots> = scan (js ''</p>'') q s"
    unfolding replace_bold_def
    by (rule scan_replace_emph; rule scan_same) (rule close_reset, assumption)+
  finally show ?thesis .
qed

lemma open_kept_bullets: "scan (js ''<p>'') q (replace_bullets s) = scan (js ''<p>'') q s"
  unfolding replace_bullets_def
  by (rule scan_replace_pair; rule scan_same) (rule open_reset, assumption)+

lemma close_kept_bullets: "scan (js ''</p>'') q (replace_bullets s) = scan (js ''</p>'') q s"
  unfolding replace_bullets_def
  by (rule scan_replace_pair; rule scan_same) (rule close_reset, assumption)+

lemma format_text_plain:
  assumes "\<not> sublist [0x0A, 0x0A] t"
  shows "format_text t = replace_bullets (replace_italic (replace_bold t))"
    and "scan (js ''<p>'') q (format_text t) = scan (js ''<p>'') q t"
    and "scan (js ''</p>'') q (format_text t) = scan (js ''</p>'') q t"
proof -
  let ?x = "replace_italic (replace_bold t)"
  from assms have "scan [0x0A, 0x0A] 0 t \<noteq> length [0x0A, 0x0A :: jschar]"
    using scan_sublist [OF plain_patterns(1), of t] by blast
  then have "scan [0x0A, 0x0A] 0 ?x \<noteq> length [0x0A, 0x0A :: jschar]"
    by (simp add: breaks_kept)
  then have "\<not> sublist [0x0A, 0x0A] ?x"
    using scan_sublist [OF plain_patterns(1), of ?x] by blast
  then have "replace_breaks ?x = ?x"
    unfolding replace_breaks_def by (rule replace_pair_absent)
  then show f: "format_text t = replace_bullets ?x"
    by (simp add: format_text_def)
  show "scan (js ''<p>'') q (format_text t) = scan (js ''<p>'') q t"
    by (simp only: f open_kept_bullets open_kept_emph)
  show "scan (js ''</p>'') q (format_text t) = scan (js ''</p>'') q t"
    by (simp only: f close_kept_bullets close_kept_emph)
qed

lemma count_open:
  assumes "\<not> sublist (js ''<p>'') b"
  shows "count_sub (js ''<p>'') (js ''<p>'' @ b @ js ''</p>'') = 1"
proof -
  let ?p = "js ''<p>''"
  have l: "length ?p = 3" by (simp add: js_def)
  from assms have "scan ?p 0 b \<noteq> 3"
    using scan_sublist [OF plain_patterns(2), of b] by (simp add: l)
  moreover have "scan ?p 0 b \<le> 3"
    using scan_bound [of 0 ?p b] by (simp add: l)
  ultimately have "scan ?p 0 b < 3" by simp
  then have "scan ?p (scan ?p 0 b) (js ''</p>'') = 0"
    unfolding below literals by (elim disjE; simp add: advance_def)
  moreover have "scan ?p 0 [0x70, 0x3E] = 0"
    by (simp add: literals advance_def)
  ultimately have "scan ?p 0 ([0x70, 0x3E] @ b @ js ''</p>'') = 0"
    by (simp only: scan_append)
  then have "\<not> sublist ?p ([0x70, 0x3E] @ b @ js ''</p>'')"
    using scan_sublist [OF plain_patterns(2), of "[0x70, 0x3E] @ b @ js ''</p>''"] by (simp add: l)
  moreover have ne: "?p \<noteq> []" by (simp add: js_def)
  ultimately have "count_sub ?p ([0x70, 0x3E] @ b @ js ''</p>'') = 0"
    using count_sub_zero [OF ne] by blast
  moreover have "?p @ b @ js ''</p>'' = 0x3C # [0x70, 0x3E] @ b @ js ''</p>''"
    by (simp add: literals)
  moreover have "prefix ?p (0x3C # [0x70, 0x3E] @ b @ js ''</p>'')"
    by (simp add: literals)
  ultimately show ?thesis by simp
qed

lemma count_close:
  assumes "\<not> sublist (js ''</p>'') b"
  shows "count_sub (js ''</p>'') (js ''<p>'' @ b @ js ''</p>'') = 1"
proof -
  let ?e = "js ''</p>''"
  have l: "length ?e = 4" by (simp add: js_def)
  from assms have "scan ?e 0 b \<noteq> 4"
    using scan_sublist [OF plain_patterns(3), of b] by (simp add: l)
  moreover have "scan ?e 0 b \<le> 4"
    using scan_bound [of 0 ?e b] by (simp add: l)
  ultimately have "scan ?e 0 b < 4" by simp
  then have "scan ?e (scan ?e 0 b) [0x3C, 0x2F, 0x70] = 3"
    unfolding below literals by (elim disjE; simp add: advance_def)
  moreover have "scan ?e 0 (js ''<p>'') = 0"
    by (simp add: literals advance_def)
  ultimately have "scan ?e 0 (js ''<p>'' @ b @ [0x3C, 0x2F, 0x70]) = 3"
    by (simp only: scan_append)
  then have "\<not> sublist ?e (js ''<p>'' @ b @ [0x3C, 0x2F, 0x70])"
    using scan_sublist [OF plain_patterns(3), of "js ''<p>'' @ b @ [0x3C, 0x2F, 0x70]"]
    by (simp add: l)
  moreover have ne: "?e \<noteq> []" by (simp add: js_def)
  ultimately have "count_sub ?e (js ''<p>'' @ b @ [0x3C, 0x2F, 0x70]) = 0"
    using count_sub_zero [OF ne] by blast
  moreover have "js ''<p>'' @ b @ ?e = (js ''<p>'' @ b @ [0x3C, 0x2F, 0x70]) @ [0x3E]"
    by (simp add: literals)
  moreover have "suffix ?e ((js ''<p>'' @ b @ [0x3C, 0x2F, 0x70]) @ [0x3E])"
    by (simp add: literals suffix_def)
  ultimately show ?thesis
    using count_sub_snoc [OF ne, of "js ''<p>'' @ b @ [0x3C, 0x2F, 0x70]" "0x3E"]
    by simp
qed

lemma match_emph_absent:
  assumes "d \<noteq> []" and "hd d \<notin> set s"
  shows "match_emph d s = None"
proof -
  have "\<not> prefix d s"
  proof
    assume "prefix d s"
    then have "set d \<subseteq> set s" by (rule set_mono_prefix)
    with assms show False by (cases d) auto
  qed
  then show ?thesis by (simp add: match_emph_def)
qed

lemma replace_emph_absent:
  assumes "d \<noteq> []"
  shows "hd d \<notin> set s \<Longrightarrow> replace_emph d opn cls s = s"
proof (induction s)
  case Nil
  show ?case by simp
next
  case (Cons c cs)
  from Cons.prems have "match_emph d (c # cs) = None"
    by (rule match_emph_absent [OF assms])
  with Cons show ?case by (simp add: replace_emph_Cons)
qed

lemma replace_pair_without:
  assumes "a \<notin> set s"
  shows "replace_pair a b r s = s"
proof (rule replace_pair_absent)
  show "\<not> sublist [a, b] s"
  proof
    assume "sublist [a, b] s"
    then have "set [a, b] \<subseteq> set s" by (rule set_mono_sublist)
    with assms show False by simp
  qed
qed

lemma replace_pair_skip:
  "a \<notin> set xs \<Longrightarrow> replace_pair a b r (xs @ a # b # ys) = xs @ r @ replace_pair a b r ys"
proof (induction xs)
  case Nil
  show ?case by simp
next
  case (Cons x xs)
  then have "x \<noteq> a" by auto
  obtain y zs where rest: "xs @ a # b # ys = y # zs"
    by (cases xs) auto
  have "replace_pair a b r ((x # xs) @ a # b # ys) = replace_pair a b r (x # y # zs)"
    by (simp add: rest)
  also have "\<dots> = x # replace_pair a b r (y # zs)"
    using \<open>x \<noteq> a\<close> by simp
  also have "\<dots> = x # xs @ r @ replace_pair a b r ys"
    using Cons by (simp add: rest [symmetric])
  finally show ?case by simp
qed

lemma format_text_two_paragraphs:
  assumes "0x2A \<notin> set a \<union> set b" and "0x0A \<notin> set a \<union> set b"
  shows "format_text (a @ [0x0A, 0x0A] @ b) = a @ js ''</p><p>'' @ b"
proof -
  let ?t = "a @ [0x0A, 0x0A] @ b"
  have star: "hd (js ''**'') \<notin> set ?t" "hd (js ''*'') \<notin> set ?t"
    using assms(1) by (simp_all add: js_def)
  have "replace_bold ?t = ?t"
    unfolding replace_bold_def using star(1) by (intro replace_emph_absent) (simp add: js_def)
  moreover have "replace_italic ?t = ?t"
    unfolding replace_italic_def using star(2) by (intro replace_emph_absent) (simp add: js_def)
  moreover have "replace_breaks ?t = a @ js ''</p><p>'' @ replace_breaks b"
    unfolding replace_breaks_def using assms(2) replace_pair_skip [of "0x0A" a "0x0A" _ b]
    by simp
  moreover have "replace_breaks b = b"
    unfolding replace_breaks_def using assms(2) by (intro replace_pair_without) simp
  moreover have "replace_bullets (a @ js ''</p><p>'' @ b) = a @ js ''</p><p>'' @ b"
    unfolding replace_bullets_def using assms(2)
    by (intro replace_pair_without) (simp add: js_def)
  ultimately show ?thesis by (simp add: format_text_def)
qed

text \<open>
  Claim C3 says that the markup of \<^verbatim>\<open>renderText\<close> holds exactly one \<^verbatim>\<open><p>\<close> and one
  \<^verbatim>\<open></p>\<close> whatever the text, double newlines included. The text \<open>a\<close>, two
  newlines, \<open>b\<close> renders as \<^verbatim>\<open><p>a</p><p>b</p>\<close>: two of each.
\<close>

theorem renderText_paragraph_counterexample:
  "renderText (JStr [0x61, 0x0A, 0x0A, 0x62]) = Inr (js ''<p>a</p><p>b</p>'') \<and>
   count_sub (js ''<p>'') (js ''<p>a</p><p>b</p>'') = 2 \<and>
   count_sub (js ''</p>'') (js ''<p>a</p><p>b</p>'') = 2"
  by code_simp

text \<open>
  Claim C3, amended: for every string \<open>t\<close>, \<^verbatim>\<open>renderText\<close> returns \<^verbatim>\<open><p>\<close>, the
  substituted text, \<^verbatim>\<open></p>\<close>. When \<open>t\<close> contains no double newline, and no
  \<^verbatim>\<open><p>\<close> or \<^verbatim>\<open></p>\<close> of its own (the text is not escaped), the markup holds exactly
  one \<^verbatim>\<open><p>\<close>, at its start, and exactly one \<^verbatim>\<open></p>\<close>, at its end. A double newline
  makes a boundary inside: two runs of text without asterisk and newline, separated by
  a double newline, render as two paragraphs.
\<close>

theorem renderText_paragraph:
  "renderText (JStr t) = Inr (js ''<p>'' @ format_text t @ js ''</p>'') \<and>
   (\<not> sublist [0x0A, 0x0A] t \<and> \<not> sublist (js ''<p>'') t \<and> \<not> sublist (js ''</p>'') t \<longrightarrow>
      count_sub (js ''<p>'') (js ''<p>'' @ format_text t @ js ''</p>'') = 1 \<and>
      count_sub (js ''</p>'') (js ''<p>'' @ format_text t @ js ''</p>'') = 1) \<and>
   (0x2A \<notin> set a \<union> set b \<and> 0x0A \<notin> set a \<union> set b \<longrightarrow>
      renderText (JStr (a @ [0x0A, 0x0A] @ b)) =
        Inr (js ''<p>'' @ a @ js ''</p><p>'' @ b @ js ''</p>''))"
proof -
  let ?html = "js ''<p>'' @ format_text t @ js ''</p>''"
  have "count_sub (js ''<p>'') ?html = 1 \<and> count_sub (js ''</p>'') ?html = 1"
    if a: "\<not> sublist [0x0A, 0x0A] t" and b: "\<not> sublist (js ''<p>'') t"
      and c: "\<not> sublist (js ''</p>'') t"
  proof -
    from b have "scan (js ''<p>'') 0 t \<noteq> length (js ''<p>'')"
      using scan_sublist [OF plain_patterns(2), of t] by blast
    then have "scan (js ''<p>'') 0 (format_text t) \<noteq> length (js ''<p>'')"
      by (simp add: format_text_plain(2) [OF a])
    then have opn: "\<not> sublist (js ''<p>'') (format_text t)"
      using scan_sublist [OF plain_patterns(2), of "format_text t"] by blast
    from c have "scan (js ''</p>'') 0 t \<noteq> length (js ''</p>'')"
      using scan_sublist [OF plain_patterns(3), of t] by blast
    then have "scan (js ''</p>'') 0 (format_text t) \<noteq> length (js ''</p>'')"
      by (simp add: format_text_plain(3) [OF a])
    then have cls: "\<not> sublist (js ''</p>'') (format_text t)"
      using scan_sublist [OF plain_patterns(3), of "format_text t"] by blast
    from opn cls show ?thesis
      by (simp add: count_open count_close)
  qed
  moreover have "renderText (JStr (a @ [0x0A, 0x0A] @ b)) =
        Inr (js ''<p>'' @ a @ js ''</p><p>'' @ b @ js ''</p>'')"
    if "0x2A \<notin> set a \<union> set b" and "0x0A \<notin> set a \<union> set b"
    using format_text_two_paragraphs [OF that] by simp
  ultimately show ?thesis by simp
qed

theorem renderText_paragraph_witness:
  "count_sub (js ''<p>'') (js ''<p><strong>a</strong> <em>b</em></p>'') = 1 \<and>
   count_sub (js ''</p>'') (js ''<p><strong>a</strong> <em>b</em></p>'') = 1 \<and>
   renderText (JStr (js ''a'' @ [0x0A, 0x0A] @ js ''b'')) = Inr (js ''<p>a</p><p>b</p>'')"
proof -
  have f: "js ''<p>'' @ format_text (js ''**a** *b*'') @ js ''</p>'' =
      js ''<p><strong>a</strong> <em>b</em></p>''"
    by code_simp
  have h: "\<not> sublist [0x0A, 0x0A] (js ''**a** *b*'')" "\<not> sublist (js ''<p>'') (js ''**a** *b*'')"
    "\<not> sublist (js ''</p>'') (js ''**a** *b*'')"
    by code_simp+
  have p: "0x2A \<notin> set (js ''a'') \<union> set (js ''b'')" "0x0A \<notin> set (js ''a'') \<union> set (js ''b'')"
    by (simp_all add: js_def)
  have j: "js ''<p>'' @ js ''a'' @ js ''</p><p>'' @ js ''b'' @ js ''</p>'' = js ''<p>a</p><p>b</p>''"
    by (simp add: js_def)
  note inst = renderText_paragraph [of "js ''**a** *b*''" "js ''a''" "js ''b''"]
  from inst h have "count_sub (js ''<p>'') (js ''<p>'' @ format_text (js ''**a** *b*'') @ js ''</p>'') = 1"
    and "count_sub (js ''</p>'') (js ''<p>'' @ format_text (js ''**a** *b*'') @ js ''</p>'') = 1"
    by blast+
  moreover from inst p have "renderText (JStr (js ''a'' @ [0x0A, 0x0A] @ js ''b'')) =
      Inr (js ''<p>'' @ js ''a'' @ js ''</p><p>'' @ js ''b'' @ js ''</p>'')"
    by blast
  ultimately show ?thesis by (simp only: f j)
qed

section \<open>The order of the substitutions\<close>

lemma lazy_dots_group:
  "lazy_dots d s = Some (g, r) \<Longrightarrow> \<forall>c\<in>set g. \<not> is_line_terminator c"
proof (induction s arbitrary: g)
  case Nil
  then show ?case by (simp split: if_splits)
next
  case (Cons c cs)
  show ?case
  proof (cases "prefix d (c # cs)")
    case True
    with Cons.prems show ?thesis by simp
  next
    case False
    with Cons.prems obtain g' where g': "lazy_dots d cs = Some (g', r)" and g: "g = c # g'"
      and c: "\<not> is_line_terminator c"
      by (auto split: if_splits)
    from Cons.IH [OF g'] g c show ?thesis by simp
  qed
qed

lemma lazy_dots_complete:
  "s = g @ d @ r \<Longrightarrow> \<forall>c\<in>set g. \<not> is_line_terminator c \<Longrightarrow>
   \<forall>k<length g. \<not> prefix d (drop k s) \<Longrightarrow> lazy_dots d s = Some (g, r)"
proof (induction g arbitrary: s)
  case Nil
  then have s: "s = d @ r" by simp
  show ?case
  proof (cases s)
    case Nil
    with s show ?thesis by simp
  next
    case (Cons c cs)
    have "prefix d (d @ r)" by simp
    with s Cons have "prefix d (c # cs)" by simp
    moreover from s Cons have "drop (length d) (c # cs) = r" by (metis append_eq_conv_conj)
    ultimately show ?thesis using Cons by simp
  qed
next
  case (Cons c g)
  from Cons.prems(1) have s: "s = c # (g @ d @ r)" by simp
  from Cons.prems(3) have first: "\<not> prefix d s" by fastforce
  have "\<forall>k<length g. \<not> prefix d (drop k (g @ d @ r))"
  proof (intro allI impI)
    fix k assume "k < length g"
    then have "Suc k < length (c # g)" by simp
    with Cons.prems(3) have "\<not> prefix d (drop (Suc k) s)" by blast
    with s show "\<not> prefix d (drop k (g @ d @ r))" by simp
  qed
  with Cons.IH [of "g @ d @ r"] Cons.prems(2) have "lazy_dots d (g @ d @ r) = Some (g, r)"
    by simp
  with s first Cons.prems(2) show ?case by simp
qed

lemma match_emph_iff:
  "match_emph d s = Some (g, r) \<longleftrightarrow>
     s = d @ g @ d @ r \<and> g \<noteq> [] \<and> (\<forall>c\<in>set g. \<not> is_line_terminator c) \<and>
     (\<forall>k. 0 < k \<and> k < length g \<longrightarrow> \<not> prefix d (drop k (g @ d @ r)))"
proof
  assume m: "match_emph d s = Some (g, r)"
  then obtain c cs g' where "drop (length d) s = c # cs" and c: "\<not> is_line_terminator c"
    and l: "lazy_dots d cs = Some (g', r)" and g: "g = c # g'"
    by (auto simp: match_emph_def split: if_splits list.splits)
  from lazy_dots_group [OF l] c g have "\<forall>c\<in>set g. \<not> is_line_terminator c" by simp
  with match_emph_Some [OF m]
  show "s = d @ g @ d @ r \<and> g \<noteq> [] \<and> (\<forall>c\<in>set g. \<not> is_line_terminator c) \<and>
     (\<forall>k. 0 < k \<and> k < length g \<longrightarrow> \<not> prefix d (drop k (g @ d @ r)))"
    by blast
next
  assume a: "s = d @ g @ d @ r \<and> g \<noteq> [] \<and> (\<forall>c\<in>set g. \<not> is_line_terminator c) \<and>
     (\<forall>k. 0 < k \<and> k < length g \<longrightarrow> \<not> prefix d (drop k (g @ d @ r)))"
  then obtain c g' where g: "g = c # g'" by (cases g) auto
  from a g have s: "s = d @ c # (g' @ d @ r)" by simp
  have "\<forall>k<length g'. \<not> prefix d (drop k (g' @ d @ r))"
  proof (intro allI impI)
    fix k assume "k < length g'"
    with g have "0 < Suc k \<and> Suc k < length g" by simp
    with a have "\<not> prefix d (drop (Suc k) (g @ d @ r))" by blast
    with g show "\<not> prefix d (drop k (g' @ d @ r))" by simp
  qed
  moreover from a g have "\<forall>c\<in>set g'. \<not> is_line_terminator c" by simp
  ultimately have "lazy_dots d (g' @ d @ r) = Some (g', r)"
    by (intro lazy_dots_complete) simp_all
  moreover from a g have "\<not> is_line_terminator c" by simp
  ultimately show "match_emph d s = Some (g, r)"
    using s g by (simp add: match_emph_def)
qed

lemma match_emph_Nil [simp]: "match_emph d [] = None"
  by (simp add: match_emph_def)

lemma replace_emph_first:
  "\<forall>k<length pre. match_emph d (drop k (pre @ s)) = None \<Longrightarrow>
   match_emph d s = Some (g, r) \<Longrightarrow>
   replace_emph d opn cls (pre @ s) = pre @ opn @ g @ cls @ replace_emph d opn cls r"
proof (induction pre)
  case Nil
  then obtain c cs where "s = c # cs" by (cases s) auto
  with Nil show ?case by (simp add: replace_emph_Cons)
next
  case (Cons x pre)
  from Cons.prems(1) have "match_emph d (x # pre @ s) = None" by fastforce
  moreover have "\<forall>k<length pre. match_emph d (drop k (pre @ s)) = None"
  proof (intro allI impI)
    fix k assume "k < length pre"
    then have "Suc k < length (x # pre)" by simp
    with Cons.prems(1) have "match_emph d (drop (Suc k) ((x # pre) @ s)) = None" by blast
    then show "match_emph d (drop k (pre @ s)) = None" by simp
  qed
  ultimately show ?case
    using Cons.IH Cons.prems(2) by (simp add: replace_emph_Cons)
qed

lemma replace_emph_none:
  "\<forall>k<length s. match_emph d (drop k s) = None \<Longrightarrow> replace_emph d opn cls s = s"
proof (induction s)
  case Nil
  show ?case by simp
next
  case (Cons c cs)
  from Cons.prems have "match_emph d (c # cs) = None" by fastforce
  moreover have "\<forall>k<length cs. match_emph d (drop k cs) = None"
  proof (intro allI impI)
    fix k assume "k < length cs"
    then have "Suc k < length (c # cs)" by simp
    with Cons.prems have "match_emph d (drop (Suc k) (c # cs)) = None" by blast
    then show "match_emph d (drop k cs) = None" by simp
  qed
  ultimately show ?case using Cons.IH by (simp add: replace_emph_Cons)
qed

lemma replace_pair_first:
  "\<not> sublist [a, b] (pre @ [a]) \<Longrightarrow>
   replace_pair a b r (pre @ a # b # rest) = pre @ r @ replace_pair a b r rest"
proof (induction pre)
  case Nil
  show ?case by simp
next
  case (Cons x pre)
  from Cons.prems have tl: "\<not> sublist [a, b] (pre @ [a])"
    by (simp add: sublist_Cons_right)
  obtain y zs where rest: "pre @ a # b # rest = y # zs" and y: "prefix [y] (pre @ [a])"
    by (cases pre) auto
  have "\<not> (x = a \<and> y = b)"
  proof
    assume "x = a \<and> y = b"
    with y have "prefix [a, b] (x # pre @ [a])" by simp
    with Cons.prems show False by (simp add: sublist_Cons_right)
  qed
  then have "replace_pair a b r (x # y # zs) = x # replace_pair a b r (y # zs)"
    by auto
  with Cons.IH [OF tl] rest show ?case by simp
qed

lemma renderText_examples:
  "renderText (JStr (js ''**a** *b*'')) = Inr (js ''<p><strong>a</strong> <em>b</em></p>'')"
  "renderText (JStr (js ''**ab** and *cd*'')) =
     Inr (js ''<p><strong>ab</strong> and <em>cd</em></p>'')"
  "renderText (JStr (js ''**a** **b**'')) = Inr (js ''<p><strong>a</strong> <strong>b</strong></p>'')"
  "renderText (JStr (js ''***a***'')) = Inr (js ''<p><strong><em>a</strong></em></p>'')"
  "renderText (JStr [0x0A, 0x0A, 0x2D]) = Inr (js ''<p></p><p>-</p>'')"
  "renderText (JStr (js ''*a'' @ [0x0A, 0x0A] @ js ''b*'')) = Inr (js ''<p>*a</p><p>b*</p>'')"
  "renderText (JStr (js ''*a'' @ [0x0A, 0x2D] @ js ''b*'')) =
     Inr (js ''<p>*a<br>'' @ [0x2022] @ js ''b*</p>'')"
  "renderText (JStr (js ''a'' @ [0x0A, 0x2D] @ js ''b'')) =
     Inr (js ''<p>a<br>'' @ [0x2022] @ js ''b</p>'')"
  by code_simp+

text \<open>
  Claim C9: \<^verbatim>\<open>renderText\<close> applies its substitutions in a fixed order: bold, then
  italic, then paragraph breaks, then bullets, each from left to right and not greedy.
  The theorem says what each pass does, in terms of the text alone.
  \<^item> An emphasis pattern matches at a position exactly when the text there is the
    delimiter, a group, the delimiter again, where the group is not empty, holds no
    line terminator, and the delimiter follows at no earlier place of the group: the
    shortest group is taken.
  \<^item> The bold pass and the italic pass copy the text up to the first position where
    their pattern matches, write the group between their tags, and go on behind the
    match; a text without a match is unchanged.
  \<^item> The break pass and the bullet pass replace the first occurrence of their two
    characters by their markup and go on behind it; a text without an occurrence is
    unchanged.
  \<^item> The passes are composed in the order of the source. The markup of some texts
    depends on it: \<^verbatim>\<open>**a** *b*\<close> renders as
    \<^verbatim>\<open><p><strong>a</strong> <em>b</em></p>\<close> (bold before italic: bold and italic
    compose); two newlines and a hyphen render as a paragraph break and a hyphen (breaks
    before bullets); an asterisk pair around a double newline or around a newline and a
    hyphen is not italic (italic before breaks and bullets, the dot does not match a
    newline).
\<close>

theorem renderText_order:
  "renderText (JStr t) =
     Inr (js ''<p>'' @
          replace_bullets (replace_breaks (replace_italic (replace_bold t))) @ js ''</p>'') \<and>
   (\<forall>d s g r. match_emph d s = Some (g, r) \<longleftrightarrow>
      s = d @ g @ d @ r \<and> g \<noteq> [] \<and> (\<forall>c\<in>set g. \<not> is_line_terminator c) \<and>
      (\<forall>k. 0 < k \<and> k < length g \<longrightarrow> \<not> prefix d (drop k (g @ d @ r)))) \<and>
   (\<forall>pre s g r.
      (\<forall>k<length pre. match_emph (js ''**'') (drop k (pre @ s)) = None) \<and>
      match_emph (js ''**'') s = Some (g, r) \<longrightarrow>
      replace_bold (pre @ s) = pre @ js ''<strong>'' @ g @ js ''</strong>'' @ replace_bold r) \<and>
   (\<forall>s. (\<forall>k<length s. match_emph (js ''**'') (drop k s) = None) \<longrightarrow> replace_bold s = s) \<and>
   (\<forall>pre s g r.
      (\<forall>k<length pre. match_emph (js ''*'') (drop k (pre @ s)) = None) \<and>
      match_emph (js ''*'') s = Some (g, r) \<longrightarrow>
      replace_italic (pre @ s) = pre @ js ''<em>'' @ g @ js ''</em>'' @ replace_italic r) \<and>
   (\<forall>s. (\<forall>k<length s. match_emph (js ''*'') (drop k s) = None) \<longrightarrow> replace_italic s = s) \<and>
   (\<forall>pre r. \<not> sublist [0x0A, 0x0A] (pre @ [0x0A]) \<longrightarrow>
      replace_breaks (pre @ [0x0A, 0x0A] @ r) = pre @ js ''</p><p>'' @ replace_breaks r) \<and>
   (\<forall>s. \<not> sublist [0x0A, 0x0A] s \<longrightarrow> replace_breaks s = s) \<and>
   (\<forall>pre r. \<not> sublist [0x0A, 0x2D] (pre @ [0x0A]) \<longrightarrow>
      replace_bullets (pre @ [0x0A, 0x2D] @ r) = pre @ js ''<br>'' @ [0x2022] @ replace_bullets r) \<and>
   (\<forall>s. \<not> sublist [0x0A, 0x2D] s \<longrightarrow> replace_bullets s = s) \<and>
   renderText (JStr (js ''**a** *b*'')) = Inr (js ''<p><strong>a</strong> <em>b</em></p>'') \<and>
   renderText (JStr (js ''**ab** and *cd*'')) =
     Inr (js ''<p><strong>ab</strong> and <em>cd</em></p>'') \<and>
   renderText (JStr (js ''**a** **b**'')) =
     Inr (js ''<p><strong>a</strong> <strong>b</strong></p>'') \<and>
   renderText (JStr (js ''***a***'')) = Inr (js ''<p><strong><em>a</strong></em></p>'') \<and>
   renderText (JStr [0x0A, 0x0A, 0x2D]) = Inr (js ''<p></p><p>-</p>'') \<and>
   renderText (JStr (js ''*a'' @ [0x0A, 0x0A] @ js ''b*'')) = Inr (js ''<p>*a</p><p>b*</p>'') \<and>
   renderText (JStr (js ''*a'' @ [0x0A, 0x2D] @ js ''b*'')) =
     Inr (js ''<p>*a<br>'' @ [0x2022] @ js ''b*</p>'') \<and>
   renderText (JStr (js ''a'' @ [0x0A, 0x2D] @ js ''b'')) =
     Inr (js ''<p>a<br>'' @ [0x2022] @ js ''b</p>'')"
proof -
  have order: "renderText (JStr t) =
     Inr (js ''<p>'' @
          replace_bullets (replace_breaks (replace_italic (replace_bold t))) @ js ''</p>'')"
    by (simp add: format_text_def)
  have bold: "replace_bold (pre @ s) = pre @ js ''<strong>'' @ g @ js ''</strong>'' @ replace_bold r"
    if "\<forall>k<length pre. match_emph (js ''**'') (drop k (pre @ s)) = None"
      and "match_emph (js ''**'') s = Some (g, r)" for pre s g r
    unfolding replace_bold_def using that by (rule replace_emph_first)
  have bold_none: "replace_bold s = s"
    if "\<forall>k<length s. match_emph (js ''**'') (drop k s) = None" for s
    unfolding replace_bold_def using that by (rule replace_emph_none)
  have italic: "replace_italic (pre @ s) = pre @ js ''<em>'' @ g @ js ''</em>'' @ replace_italic r"
    if "\<forall>k<length pre. match_emph (js ''*'') (drop k (pre @ s)) = None"
      and "match_emph (js ''*'') s = Some (g, r)" for pre s g r
    unfolding replace_italic_def using that by (rule replace_emph_first)
  have italic_none: "replace_italic s = s"
    if "\<forall>k<length s. match_emph (js ''*'') (drop k s) = None" for s
    unfolding replace_italic_def using that by (rule replace_emph_none)
  have breaks: "replace_breaks (pre @ [0x0A, 0x0A] @ r) = pre @ js ''</p><p>'' @ replace_breaks r"
    if "\<not> sublist [0x0A, 0x0A] (pre @ [0x0A])" for pre r
    unfolding replace_breaks_def using replace_pair_first [OF that] by simp
  have breaks_none: "replace_breaks s = s" if "\<not> sublist [0x0A, 0x0A] s" for s
    unfolding replace_breaks_def using that by (rule replace_pair_absent)
  have bullets: "replace_bullets (pre @ [0x0A, 0x2D] @ r) =
      pre @ js ''<br>'' @ [0x2022] @ replace_bullets r"
    if "\<not> sublist [0x0A, 0x2D] (pre @ [0x0A])" for pre r
    unfolding replace_bullets_def using replace_pair_first [OF that] by simp
  have bullets_none: "replace_bullets s = s" if "\<not> sublist [0x0A, 0x2D] s" for s
    unfolding replace_bullets_def using that by (rule replace_pair_absent)
  have c2: "\<forall>d s g r. match_emph d s = Some (g, r) \<longleftrightarrow>
      s = d @ g @ d @ r \<and> g \<noteq> [] \<and> (\<forall>c\<in>set g. \<not> is_line_terminator c) \<and>
      (\<forall>k. 0 < k \<and> k < length g \<longrightarrow> \<not> prefix d (drop k (g @ d @ r)))"
    by (intro allI) (rule match_emph_iff)
  have c3: "\<forall>pre s g r.
      (\<forall>k<length pre. match_emph (js ''**'') (drop k (pre @ s)) = None) \<and>
      match_emph (js ''**'') s = Some (g, r) \<longrightarrow>
      replace_bold (pre @ s) = pre @ js ''<strong>'' @ g @ js ''</strong>'' @ replace_bold r"
    using bold by (intro allI impI) (elim conjE)
  have c4: "\<forall>s. (\<forall>k<length s. match_emph (js ''**'') (drop k s) = None) \<longrightarrow> replace_bold s = s"
    using bold_none by (intro allI impI)
  have c5: "\<forall>pre s g r.
      (\<forall>k<length pre. match_emph (js ''*'') (drop k (pre @ s)) = None) \<and>
      match_emph (js ''*'') s = Some (g, r) \<longrightarrow>
      replace_italic (pre @ s) = pre @ js ''<em>'' @ g @ js ''</em>'' @ replace_italic r"
    using italic by (intro allI impI) (elim conjE)
  have c6: "\<forall>s. (\<forall>k<length s. match_emph (js ''*'') (drop k s) = None) \<longrightarrow> replace_italic s = s"
    using italic_none by (intro allI impI)
  have c7: "\<forall>pre r. \<not> sublist [0x0A, 0x0A] (pre @ [0x0A]) \<longrightarrow>
      replace_breaks (pre @ [0x0A, 0x0A] @ r) = pre @ js ''</p><p>'' @ replace_breaks r"
    using breaks by (intro allI impI)
  have c8: "\<forall>s. \<not> sublist [0x0A, 0x0A] s \<longrightarrow> replace_breaks s = s"
    using breaks_none by (intro allI impI)
  have c9: "\<forall>pre r. \<not> sublist [0x0A, 0x2D] (pre @ [0x0A]) \<longrightarrow>
      replace_bullets (pre @ [0x0A, 0x2D] @ r) = pre @ js ''<br>'' @ [0x2022] @ replace_bullets r"
    using bullets by (intro allI impI)
  have c10: "\<forall>s. \<not> sublist [0x0A, 0x2D] s \<longrightarrow> replace_bullets s = s"
    using bullets_none by (intro allI impI)
  show ?thesis
    by (intro conjI) (rule order c2 c3 c4 c5 c6 c7 c8 c9 c10 renderText_examples)+
qed

theorem renderText_order_witness:
  "match_emph (js ''**'') (js ''**ab** x'') = Some (js ''ab'', js '' x'') \<and>
   replace_bold (js ''x **ab** y'') = js ''x <strong>ab</strong> y'' \<and>
   replace_italic (js ''*cd*'') = js ''<em>cd</em>'' \<and>
   replace_breaks (js ''a'' @ [0x0A, 0x0A] @ js ''-b'') = js ''a</p><p>-b'' \<and>
   replace_bullets (js ''a'' @ [0x0A, 0x2D] @ js ''b'') = js ''a<br>'' @ [0x2022] @ js ''b''"
proof -
  note T = renderText_order [of "[]"]
  note iff = T [THEN conjunct2, THEN conjunct1, rule_format]
  note bold = T [THEN conjunct2, THEN conjunct2, THEN conjunct1, rule_format]
  note bold_none = T [THEN conjunct2, THEN conjunct2, THEN conjunct2, THEN conjunct1, rule_format]
  note italic = T [THEN conjunct2, THEN conjunct2, THEN conjunct2, THEN conjunct2,
    THEN conjunct1, rule_format]
  note italic_none = T [THEN conjunct2, THEN conjunct2, THEN conjunct2, THEN conjunct2,
    THEN conjunct2, THEN conjunct1, rule_format]
  note breaks = T [THEN conjunct2, THEN conjunct2, THEN conjunct2, THEN conjunct2,
    THEN conjunct2, THEN conjunct2, THEN conjunct1, rule_format]
  note breaks_none = T [THEN conjunct2, THEN conjunct2, THEN conjunct2, THEN conjunct2,
    THEN conjunct2, THEN conjunct2, THEN conjunct2, THEN conjunct1, rule_format]
  note bullets = T [THEN conjunct2, THEN conjunct2, THEN conjunct2, THEN conjunct2,
    THEN conjunct2, THEN conjunct2, THEN conjunct2, THEN conjunct2, THEN conjunct1, rule_format]
  note bullets_none = T [THEN conjunct2, THEN conjunct2, THEN conjunct2, THEN conjunct2,
    THEN conjunct2, THEN conjunct2, THEN conjunct2, THEN conjunct2, THEN conjunct2,
    THEN conjunct1, rule_format]
  have m1: "match_emph (js ''**'') (js ''**ab** x'') = Some (js ''ab'', js '' x'')"
  proof (rule iff [THEN iffD2], intro conjI allI impI ballI)
    show "js ''**ab** x'' = js ''**'' @ js ''ab'' @ js ''**'' @ js '' x''"
      by (simp add: js_def)
    show "js ''ab'' \<noteq> []" by (simp add: js_def)
    show "\<not> is_line_terminator c" if "c \<in> set (js ''ab'')" for c
      using that by (auto simp: js_def is_line_terminator_def)
    show "\<not> prefix (js ''**'') (drop k (js ''ab'' @ js ''**'' @ js '' x''))"
      if "0 < k \<and> k < length (js ''ab'')" for k
    proof -
      from that have "k = 1" by (simp add: js_def)
      then show ?thesis by (simp add: js_def)
    qed
  qed
  have m2: "match_emph (js ''**'') (js ''**ab** y'') = Some (js ''ab'', js '' y'')"
    by code_simp
  have n1: "match_emph (js ''**'') (drop k (js ''x '' @ js ''**ab** y'')) = None"
    if "k < length (js ''x '')" for k
  proof -
    from that have "k = 0 \<or> k = 1" by (simp add: js_def) arith
    then show ?thesis by (elim disjE; hypsubst; code_simp)
  qed
  have n2: "match_emph (js ''**'') (drop k (js '' y'')) = None" if "k < length (js '' y'')" for k
  proof -
    from that have "k = 0 \<or> k = 1" by (simp add: js_def) arith
    then show ?thesis by (elim disjE; hypsubst; code_simp)
  qed
  have "replace_bold (js ''x '' @ js ''**ab** y'') =
      js ''x '' @ js ''<strong>'' @ js ''ab'' @ js ''</strong>'' @ replace_bold (js '' y'')"
    using n1 m2 by (intro bold) simp_all
  moreover have "replace_bold (js '' y'') = js '' y''"
    using n2 by (intro bold_none) simp
  ultimately have b: "replace_bold (js ''x **ab** y'') = js ''x <strong>ab</strong> y''"
    by (simp add: js_def)
  have m3: "match_emph (js ''*'') (js ''*cd*'') = Some (js ''cd'', [])"
    by code_simp
  have "replace_italic ([] @ js ''*cd*'') =
      [] @ js ''<em>'' @ js ''cd'' @ js ''</em>'' @ replace_italic []"
    using m3 by (intro italic) simp_all
  moreover have "replace_italic [] = []"
    by (intro italic_none) simp
  ultimately have i: "replace_italic (js ''*cd*'') = js ''<em>cd</em>''"
    by (simp add: js_def)
  have s1: "\<not> sublist [0x0A, 0x0A] (js ''a'' @ [0x0A])"
    and s2: "\<not> sublist [0x0A, 0x0A] (js ''-b'')"
    by code_simp+
  have "replace_breaks (js ''a'' @ [0x0A, 0x0A] @ js ''-b'') =
      js ''a'' @ js ''</p><p>'' @ replace_breaks (js ''-b'')"
    using s1 by (rule breaks)
  moreover have "replace_breaks (js ''-b'') = js ''-b''"
    using s2 by (rule breaks_none)
  ultimately have k: "replace_breaks (js ''a'' @ [0x0A, 0x0A] @ js ''-b'') = js ''a</p><p>-b''"
    by (simp add: js_def)
  have s3: "\<not> sublist [0x0A, 0x2D] (js ''a'' @ [0x0A])"
    and s4: "\<not> sublist [0x0A, 0x2D] (js ''b'')"
    by code_simp+
  have "replace_bullets (js ''a'' @ [0x0A, 0x2D] @ js ''b'') =
      js ''a'' @ js ''<br>'' @ [0x2022] @ replace_bullets (js ''b'')"
    using s3 by (rule bullets)
  moreover have "replace_bullets (js ''b'') = js ''b''"
    using s4 by (rule bullets_none)
  ultimately have u: "replace_bullets (js ''a'' @ [0x0A, 0x2D] @ js ''b'') =
      js ''a<br>'' @ [0x2022] @ js ''b''"
    by (simp add: js_def)
  from m1 b i k u show ?thesis by (intro conjI)
qed

end
